theory Spec2Isabelle
  imports Main "HOL-Library.Word"
begin

unbundle bit_operations_syntax

section \<open>Go values\<close>

text \<open>
  A \<^verbatim>\<open>*big.Int\<close> is an arbitrary-precision integer behind a pointer: \<^typ>\<open>int option\<close>,
  with \<^term>\<open>None\<close> for \<^verbatim>\<open>nil\<close>.  A \<^verbatim>\<open>byte\<close> is an 8-bit word.  The arrays of the
  proofs have the fixed length \<^verbatim>\<open>PARAM_M\<close>; they are lists, and a well-formed proof
  has lists of that length.
\<close>

type_synonym byte = "8 word"

definition PARAM_M :: nat where
  "PARAM_M = 80"



text \<open>
  Modelled from the spec: \<^verbatim>\<open>common.AnyIsNil\<close>, of the package \<^verbatim>\<open>common\<close> that is not
  among the sources, tells whether some pointer of its arguments is nil.
\<close>

definition AnyIsNil :: "int option list \<Rightarrow> bool" where
  "AnyIsNil xs = (None \<in> set xs)"

text \<open>
  A Go function either returns, panics (a nil dereference, a division by zero, an
  explicit \<^verbatim>\<open>panic\<close>) or, where it loops on random samples, may never return.
\<close>

datatype 'a outcome = Returns 'a | Panics | Diverges

section \<open>math/big\<close>

text \<open>
  The operations of Go's \<^verbatim>\<open>math/big\<close> that the proofs call, modelled from the
  documentation of the standard library.
\<close>

text \<open>
  \<^verbatim>\<open>GCD(x, y, a, b)\<close> returns the greatest common divisor of \<^verbatim>\<open>a\<close>, \<^verbatim>\<open>b\<close> together with
  B\'ezout coefficients \<^verbatim>\<open>x\<close>, \<^verbatim>\<open>y\<close> with \<^verbatim>\<open>gcd = a*x + b*y\<close>.  The documentation fixes
  the coefficients only by that identity; the model runs Euclid's algorithm on
  non-negative arguments and returns \<open>(gcd, x, y)\<close>.
\<close>

function egcd :: "int \<Rightarrow> int \<Rightarrow> int \<times> int \<times> int" where
  "egcd a b =
     (if b \<le> 0 then (a, 1, 0)
      else (case egcd b (a mod b) of (g, x, y) \<Rightarrow> (g, y, x - (a div b) * y)))"
  by pat_completeness auto
termination
  by (relation "measure (\<lambda>(a, b). nat b)") (auto intro: pos_mod_bound)

declare egcd.simps [simp del]

text \<open>
  \<^verbatim>\<open>ModInverse(g, n)\<close>: the inverse of \<^verbatim>\<open>g\<close> in the ring of integers modulo \<^verbatim>\<open>|n|\<close>, in
  \<open>[0, |n|)\<close>; nil when \<^verbatim>\<open>g\<close> and \<^verbatim>\<open>n\<close> are not relatively prime.  A negative \<^verbatim>\<open>g\<close> is
  first reduced modulo \<^verbatim>\<open>|n|\<close>.
\<close>

definition ModInverse :: "int \<Rightarrow> int \<Rightarrow> int option" where
  "ModInverse g n =
     (let n' = \<bar>n\<bar>; g' = (if g < 0 then g mod n' else g)
      in case egcd g' n' of (d, x, y) \<Rightarrow> if d = 1 then Some (x mod n') else None)"

text \<open>
  \<^verbatim>\<open>Exp(x, y, m)\<close>: \<^verbatim>\<open>x**y mod |m|\<close>, in \<open>[0, |m|)\<close>.  For \<^verbatim>\<open>m = 0\<close> the result is
  \<^verbatim>\<open>x**y\<close>, and 1 when \<^verbatim>\<open>y \<le> 0\<close>.  For \<^verbatim>\<open>m \<noteq> 0\<close> and \<^verbatim>\<open>y < 0\<close> the base is replaced
  by its inverse modulo \<^verbatim>\<open>m\<close>, and the result is nil when there is none.

  Go runs the exponentiation on magnitudes and then applies the sign of the base
  \<^verbatim>\<open>x\<close> for an odd exponent, turning a non-zero result \<open>v\<close> into \<open>|m| - v\<close>.  For
  \<^verbatim>\<open>y \<ge> 0\<close> that is the power reduced into \<open>[0, |m|)\<close>.  For \<^verbatim>\<open>y < 0\<close> the magnitude
  is that of the inverse, which \<^verbatim>\<open>ModInverse\<close> has already reduced, and the sign is
  still the one of \<^verbatim>\<open>x\<close>: a negative base under an odd negative exponent gives
  \<open>|m| - inverse\<^bsup>|y|\<^esup>\<close>, so that \<^verbatim>\<open>Exp(-2, -1, 15)\<close> is 8, not 7.
\<close>

definition Exp :: "int \<Rightarrow> int \<Rightarrow> int \<Rightarrow> int option" where
  "Exp x y m =
     (if m = 0 then Some (if y \<le> 0 then 1 else x ^ nat y)
      else if y < 0 then
        (case ModInverse x m of
           None \<Rightarrow> None
         | Some xi \<Rightarrow>
             (let v = xi ^ nat (- y) mod \<bar>m\<bar>
              in Some (if v \<noteq> 0 \<and> x < 0 \<and> odd y then \<bar>m\<bar> - v else v)))
      else Some (x ^ nat y mod \<bar>m\<bar>))"

text \<open>\<^verbatim>\<open>Sqrt(x)\<close>: the integer square root \<open>\<lfloor>\<surd>x\<rfloor>\<close>; it panics for a negative \<^verbatim>\<open>x\<close>.\<close>

fun isqrt :: "nat \<Rightarrow> nat" where
  "isqrt 0 = 0"
| "isqrt (Suc n) = (let r = isqrt n in if (r + 1) * (r + 1) \<le> Suc n then r + 1 else r)"


text \<open>
  \<^verbatim>\<open>ProbablyPrime(30)\<close> is true on every prime, false on every composite below
  \<open>2\<^sup>6\<^sup>4\<close> and, by the documentation, false on a larger composite except with
  probability at most \<open>4\<^sup>-\<^sup>3\<^sup>0\<close>.  The model takes the test to be exact.
\<close>

definition is_prime :: "int \<Rightarrow> bool" where
  "is_prime p = (1 < p \<and> list_all (\<lambda>d. \<not> d dvd p) [2..p - 1])"

lemma is_prime_alt: "is_prime p \<longleftrightarrow> 1 < p \<and> (\<forall>d\<in>{2..<p}. \<not> d dvd p)"
  by (auto simp: is_prime_def list_all_iff)

definition ProbablyPrime :: "int \<Rightarrow> bool" where
  "ProbablyPrime n = is_prime n"

text \<open>
  \<^verbatim>\<open>Jacobi(x, y)\<close> is the Jacobi symbol of \<^verbatim>\<open>x\<close> over the odd \<^verbatim>\<open>y\<close>: the product, over
  the prime factors of \<^verbatim>\<open>y\<close> with multiplicity, of the Legendre symbols of \<^verbatim>\<open>x\<close>.  The
  Legendre symbol over a prime is 0 on the multiples of the prime, 1 on the other
  squares and -1 elsewhere.  (Go panics on an even \<^verbatim>\<open>y\<close>; the callers modelled here
  test the parity first.)
\<close>

definition is_square_mod :: "int \<Rightarrow> int \<Rightarrow> bool" where
  "is_square_mod x p = list_ex (\<lambda>r. r * r mod p = x mod p) [0..p - 1]"

lemma is_square_mod_alt: "is_square_mod x p \<longleftrightarrow> (\<exists>r\<in>{0..<p}. r * r mod p = x mod p)"
  by (auto simp: is_square_mod_def list_ex_iff)

definition Legendre :: "int \<Rightarrow> int \<Rightarrow> int" where
  "Legendre x p = (if p dvd x then 0 else if is_square_mod x p then 1 else - 1)"

function least_factor_from :: "int \<Rightarrow> int \<Rightarrow> int" where
  "least_factor_from n d =
     (if n \<le> d then n else if d dvd n then d else least_factor_from n (d + 1))"
  by pat_completeness auto
termination
  by (relation "measure (\<lambda>(n, d). nat (n - d))") auto

declare least_factor_from.simps [simp del]

definition least_factor :: "int \<Rightarrow> int" where
  "least_factor n = least_factor_from n 2"

lemma least_factor_from_least:
  "d \<le> n \<Longrightarrow>
     d \<le> least_factor_from n d \<and> least_factor_from n d \<le> n
     \<and> least_factor_from n d dvd n
     \<and> (\<forall>e. d \<le> e \<and> e < least_factor_from n d \<longrightarrow> \<not> e dvd n)"
proof (induction n d rule: least_factor_from.induct)
  case (1 n d)
  show ?case
  proof (cases "n \<le> d \<or> d dvd n")
    case True
    with "1.prems" show ?thesis
      by (subst (1 2 3 4) least_factor_from.simps) auto
  next
    case False
    then have rec: "least_factor_from n d = least_factor_from n (d + 1)"
      by (subst least_factor_from.simps) simp
    from False have "d + 1 \<le> n" by simp
    with "1.IH" False have ih: "d + 1 \<le> least_factor_from n (d + 1)"
      "least_factor_from n (d + 1) \<le> n" "least_factor_from n (d + 1) dvd n"
      "\<forall>e. d + 1 \<le> e \<and> e < least_factor_from n (d + 1) \<longrightarrow> \<not> e dvd n"
      by simp_all
    have "\<not> e dvd n" if "d \<le> e" "e < least_factor_from n (d + 1)" for e
    proof (cases "e = d")
      case True
      with False show ?thesis by simp
    next
      case False
      with that ih(4) show ?thesis by simp
    qed
    with ih show ?thesis unfolding rec by auto
  qed
qed

lemma least_factor_ge2: "1 < n \<Longrightarrow> 2 \<le> least_factor n"
  using least_factor_from_least [of 2 n] by (simp add: least_factor_def)

function Jacobi :: "int \<Rightarrow> int \<Rightarrow> int" where
  "Jacobi x n =
     (if n \<le> 1 then 1
      else Legendre x (least_factor n) * Jacobi x (n div least_factor n))"
  by pat_completeness auto
termination
proof (relation "measure (\<lambda>(x, n). nat n)")
  show "wf (measure (\<lambda>(x, n). nat n))" by simp
next
  fix x n :: int
  assume "\<not> n \<le> 1"
  then have n: "1 < n" by simp
  from least_factor_ge2 [OF n] have "n div least_factor n < n"
    using n by (intro int_div_less_self) auto
  moreover have "0 \<le> n div least_factor n"
    using n least_factor_ge2 [OF n] by (simp add: pos_imp_zdiv_nonneg_iff)
  ultimately show "((x, n div least_factor n), (x, n)) \<in> measure (\<lambda>(x, n). nat n)"
    using n by simp
qed

declare Jacobi.simps [simp del]

text \<open>
  \<^verbatim>\<open>ModSqrt(x, p)\<close> for an odd prime \<^verbatim>\<open>p\<close>: nil when the Jacobi symbol of \<^verbatim>\<open>x\<close> is -1,
  0 when it is 0, and otherwise a square root of \<^verbatim>\<open>x\<close> modulo \<^verbatim>\<open>p\<close>.  For
  \<^verbatim>\<open>p mod 4 = 3\<close> the root is \<^verbatim>\<open>x**((p+1)/4) mod p\<close>.  For the other primes Go runs
  Atkin's or the Tonelli-Shanks algorithm, documented only to return a square root;
  the model returns the least one.
\<close>

definition modSqrt3Mod4Prime :: "int \<Rightarrow> int \<Rightarrow> int" where
  "modSqrt3Mod4Prime x p = x ^ nat ((p + 1) div 4) mod p"

definition least_sqrt :: "int \<Rightarrow> int \<Rightarrow> int" where
  "least_sqrt x p = (case filter (\<lambda>r. r * r mod p = x mod p) [0..p - 1] of [] \<Rightarrow> 0 | r # _ \<Rightarrow> r)"

definition ModSqrt :: "int \<Rightarrow> int \<Rightarrow> int option" where
  "ModSqrt x p =
     (let j = Legendre x p
      in if j = - 1 then None
         else if j = 0 then Some 0
         else if p mod 4 = 3 then Some (modSqrt3Mod4Prime (x mod p) p)
         else Some (least_sqrt (x mod p) p))"

text \<open>
  \<^verbatim>\<open>Bytes()\<close> is the big-endian magnitude without leading zero bytes (empty for 0);
  \<^verbatim>\<open>SetBytes\<close> reads a big-endian unsigned integer.
\<close>

fun bytes_of_nat :: "nat \<Rightarrow> byte list" where
  "bytes_of_nat n = (if n = 0 then [] else bytes_of_nat (n div 256) @ [of_nat (n mod 256)])"

declare bytes_of_nat.simps [simp del]

definition Bytes :: "int \<Rightarrow> byte list" where
  "Bytes x = bytes_of_nat (nat \<bar>x\<bar>)"

definition SetBytes :: "byte list \<Rightarrow> int" where
  "SetBytes bs = foldl (\<lambda>acc b. acc * 256 + uint b) 0 bs"

section \<open>The package common\<close>

text \<open>
  Modelled from the spec: the helpers of the package \<^verbatim>\<open>common\<close>, which is not among
  the sources.  \<^verbatim>\<open>ModInt(m)\<close> computes modulo \<^verbatim>\<open>m\<close>: \<^verbatim>\<open>Add\<close>, \<^verbatim>\<open>Mul\<close> and \<^verbatim>\<open>Neg\<close> reduce
  the sum, the product and the negation (\<open>- r mod p\<close>), for a modulus \<^verbatim>\<open>m \<noteq> 0\<close>;
  \<^verbatim>\<open>Exp\<close> is \<^verbatim>\<open>big.Int.Exp\<close>; \<^verbatim>\<open>MulExp(a, b, e)\<close> is \<open>a \<cdot> b\<^sup>e mod m\<close> and
  \<^verbatim>\<open>ExpMulExp(a, x, b, y)\<close> is \<open>a\<^sup>x \<cdot> b\<^sup>y mod m\<close>.  A division by zero or a
  non-invertible base under a negative exponent is a computation failure
  (\<^term>\<open>None\<close>).
\<close>

definition ModInt_Add :: "int \<Rightarrow> int \<Rightarrow> int \<Rightarrow> int" where
  "ModInt_Add m x y = (x + y) mod \<bar>m\<bar>"

definition ModInt_Mul :: "int \<Rightarrow> int \<Rightarrow> int \<Rightarrow> int" where
  "ModInt_Mul m x y = (x * y) mod \<bar>m\<bar>"

definition ModInt_Neg :: "int \<Rightarrow> int \<Rightarrow> int" where
  "ModInt_Neg m x = (- x) mod \<bar>m\<bar>"

definition ModInt_Exp :: "int \<Rightarrow> int \<Rightarrow> int \<Rightarrow> int option" where
  "ModInt_Exp m x y = Exp x y m"

definition ModInt_MulExp :: "int \<Rightarrow> int \<Rightarrow> int \<Rightarrow> int \<Rightarrow> int option" where
  "ModInt_MulExp m a b e =
     (if m = 0 then None
      else case Exp b e m of None \<Rightarrow> None | Some v \<Rightarrow> Some ((a * v) mod \<bar>m\<bar>))"


text \<open>
  Modelled from the spec: \<^verbatim>\<open>HashToN(bound, ints...)\<close> hashes the ordered tuple of
  integers and reduces the digest into \<open>[0, bound)\<close>.  The digest is a parameter
  \<open>h\<close>, any function of the bound and the tuple.  \<^verbatim>\<open>SHA512_256i\<close> is likewise a
  parameter \<open>sha\<close> wherever it is called.
\<close>

definition HashToN :: "(int \<Rightarrow> int list \<Rightarrow> int) \<Rightarrow> int \<Rightarrow> int list \<Rightarrow> int" where
  "HashToN h bound ins = h bound ins mod bound"

text \<open>
  Modelled from the spec: \<^verbatim>\<open>GetRandomPositiveInt(bound)\<close> samples from \<open>[0, bound)\<close>
  and returns nil for a bound that is not positive.  The randomness is a parameter
  \<open>rnd\<close>, the stream of raw draws; the \<open>k\<close>-th sample is the \<open>k\<close>-th draw reduced
  into the range, so that every value of the range is a possible sample.
\<close>

definition GetRandomPositiveInt :: "(nat \<Rightarrow> int) \<Rightarrow> nat \<Rightarrow> int \<Rightarrow> int option" where
  "GetRandomPositiveInt rnd k bound = (if bound \<le> 0 then None else Some (rnd k mod bound))"

text \<open>
  Modelled from the spec: \<^verbatim>\<open>BigIntsToBytes\<close> and \<^verbatim>\<open>MultiBytesToBigInts\<close>, of the same
  package, convert entry by entry with \<^verbatim>\<open>Bytes\<close> and \<^verbatim>\<open>SetBytes\<close>; \<^verbatim>\<open>Eq\<close> is
  equality of the two integers.
\<close>

definition BigIntsToBytes :: "int list \<Rightarrow> byte list list" where
  "BigIntsToBytes xs = map Bytes xs"

definition MultiBytesToBigInts :: "byte list list \<Rightarrow> int list" where
  "MultiBytesToBigInts bs = map SetBytes bs"

section \<open>param\_proof.go: the challenge bits\<close>

text \<open>
  \<^verbatim>\<open>BytesToBits\<close> reads the bits 0 to 79 of its argument with \<^verbatim>\<open>big.Int.Bit\<close> and stores
  each as a byte.
\<close>

definition BytesToBits :: "int \<Rightarrow> byte list" where
  "BytesToBits b = map (\<lambda>i. (of_bool (bit b i) :: byte)) [0..<PARAM_M]"

lemma BytesToBits_length: "length (BytesToBits b) = 80"
  by (simp add: BytesToBits_def PARAM_M_def)

lemma BytesToBits_nth: "i < 80 \<Longrightarrow> BytesToBits b ! i = of_bool (bit b i)"
  by (simp add: BytesToBits_def PARAM_M_def)


text \<open>
  \<^verbatim>\<open>ParamChallenge\<close> is the Fiat-Shamir transform: the hash of the commitments is
  hashed again with the public parameters, and its low bits are the challenge.
\<close>

definition ParamChallenge :: "(int list \<Rightarrow> int) \<Rightarrow> int \<Rightarrow> int \<Rightarrow> int \<Rightarrow> int list \<Rightarrow> byte list" where
  "ParamChallenge sha N s t A = (let aHash = sha A; e = sha [N, s, t, aHash] in BytesToBits e)"

section \<open>param\_proof.go: the ring-Pedersen parameter proof\<close>

text \<open>
  Modelled from the spec: the private key, declared in a file that is not among the
  sources, holds the modulus \<open>N\<close>, \<open>\<phi>(N)\<close> and the primes \<open>p\<close>, \<open>q\<close>
  (\<^verbatim>\<open>PublicKey.N\<close>, \<^verbatim>\<open>PhiN\<close>, \<^verbatim>\<open>GetPQ()\<close>).
\<close>

record PrivateKey =
  pk_N :: int
  pk_PhiN :: int
  pk_P :: int
  pk_Q :: int

record ParamProof =
  pp_A :: "int option list"
  pp_Z :: "int option list"

text \<open>
  \<^verbatim>\<open>ParamProof(s, t, lambda)\<close>: 80 samples \<open>a\<^sub>i\<close> below \<open>\<phi>(N)\<close>, the commitments
  \<open>A\<^sub>i = t\<^bsup>a\<^sub>i\<^esup> mod N\<close>, the challenge bits \<open>e\<^sub>i\<close> and the responses
  \<open>z\<^sub>i = a\<^sub>i + e\<^sub>i \<cdot> lambda mod \<phi>(N)\<close>.  A nil sample (a totient that is not
  positive) is dereferenced by the exponentiation.
\<close>

definition ParamProof ::
  "(int list \<Rightarrow> int) \<Rightarrow> (nat \<Rightarrow> int) \<Rightarrow> PrivateKey \<Rightarrow> int \<Rightarrow> int \<Rightarrow> int \<Rightarrow> ParamProof outcome" where
  "ParamProof sha rnd privateKey s t lambda =
     (let N = pk_N privateKey; PhiN = pk_PhiN privateKey
      in case those (map (\<lambda>i. GetRandomPositiveInt rnd i PhiN) [0..<PARAM_M]) of
           None \<Rightarrow> Panics
         | Some a \<Rightarrow>
             (case those (map (\<lambda>i. ModInt_Exp N t (a ! i)) [0..<PARAM_M]) of
                None \<Rightarrow> Panics
              | Some A \<Rightarrow>
                  (let e = ParamChallenge sha N s t A;
                       z = map (\<lambda>i. ModInt_Add PhiN (a ! i) (ModInt_Mul PhiN (uint (e ! i)) lambda))
                             [0..<PARAM_M]
                   in Returns \<lparr>pp_A = map Some A, pp_Z = map Some z\<rparr>)))"

text \<open>
  \<^verbatim>\<open>ParamVerify(N, s, t)\<close> returns a bare boolean.  After the nil test it recomputes
  the challenge and compares \<open>t\<^bsup>z\<^sub>i\<^esup>\<close> with \<open>A\<^sub>i \<cdot> s\<^bsup>e\<^sub>i\<^esup>\<close> for each index,
  returning at the first difference.  A failed computation leaves a nil operand for
  the comparison.
\<close>

fun ParamVerify_loop ::
  "int \<Rightarrow> int \<Rightarrow> int \<Rightarrow> int list \<Rightarrow> int list \<Rightarrow> byte list \<Rightarrow> nat list \<Rightarrow> bool outcome" where
  "ParamVerify_loop N s t A Z e [] = Returns True"
| "ParamVerify_loop N s t A Z e (i # is) =
     (case ModInt_Exp N t (Z ! i) of
        None \<Rightarrow> Panics
      | Some tzi \<Rightarrow>
          (case ModInt_MulExp N (A ! i) s (uint (e ! i)) of
             None \<Rightarrow> Panics
           | Some Aisei \<Rightarrow>
               if tzi \<noteq> Aisei then Returns False
               else ParamVerify_loop N s t A Z e is))"

definition ParamVerify ::
  "(int list \<Rightarrow> int) \<Rightarrow> ParamProof \<Rightarrow> int option \<Rightarrow> int option \<Rightarrow> int option \<Rightarrow> bool outcome" where
  "ParamVerify sha pf N s t =
     (if AnyIsNil [N, s, t] \<or> AnyIsNil (pp_A pf) \<or> AnyIsNil (pp_Z pf) then Returns False
      else (let A = map the (pp_A pf); Z = map the (pp_Z pf);
                e = ParamChallenge sha (the N) (the s) (the t) A
            in ParamVerify_loop (the N) (the s) (the t) A Z e [0..<PARAM_M]))"

section \<open>mod\_proof.go: square and quartic roots by the Chinese remainder theorem\<close>

text \<open>
  The functions of this section are called with odd primes \<open>p\<close>, \<open>q\<close> and
  \<open>n = p \<cdot> q\<close>.
\<close>

definition PrimeModSqrt :: "int \<Rightarrow> int \<Rightarrow> int list" where
  "PrimeModSqrt x p = (case ModSqrt x p of None \<Rightarrow> [] | Some r \<Rightarrow> [r, ModInt_Neg p r])"

definition CompModSqrt :: "int \<Rightarrow> int \<Rightarrow> int \<Rightarrow> int \<Rightarrow> int list" where
  "CompModSqrt x p q n =
     (let rps = PrimeModSqrt x p; rqs = PrimeModSqrt x q
      in case egcd p q of
           (g, a, b) \<Rightarrow>
             concat (map (\<lambda>rp. map (\<lambda>rq.
                 (let temp1 = ModInt_Mul n (ModInt_Mul n b q) rp;
                      temp2 = ModInt_Mul n (ModInt_Mul n a p) rq
                  in ModInt_Add n temp1 temp2)) rqs) rps))"

definition CompMod4thRt :: "int \<Rightarrow> int \<Rightarrow> int \<Rightarrow> int \<Rightarrow> int list" where
  "CompMod4thRt x p q n =
     concat (map (\<lambda>sqroot. CompModSqrt sqroot p q n) (CompModSqrt x p q n))"

section \<open>mod\_proof.go: the Blum-modulus proof\<close>

record ModProof =
  mp_W :: int
  mp_X :: "int list"
  mp_A :: "bool list"
  mp_B :: "bool list"
  mp_Z :: "int list"

datatype error =
    ModEven int
  | ModSeemsPrime int
  | ModZMismatch nat int int
  | ModXMismatch nat int int
  | FacNilArgs
  | FacNilProof
  | FacEq1 int int
  | FacEq2 int int
  | FacEq3 int int
  | FacZ1Limit int int
  | FacZ2Limit int int
  | UnmarshalWZero
  | UnmarshalXs nat
  | UnmarshalAs nat
  | UnmarshalBs nat
  | UnmarshalZs nat

definition ModChallenge :: "(int \<Rightarrow> int list \<Rightarrow> int) \<Rightarrow> int \<Rightarrow> int \<Rightarrow> int list" where
  "ModChallenge h N w = map (\<lambda>i. HashToN h N [w, int i]) [0..<PARAM_M]"

text \<open>
  The value \<open>(-1)\<^sup>a \<cdot> w\<^sup>b \<cdot> y\<^sub>i mod N\<close> that \<^verbatim>\<open>DefineXi\<close> and \<^verbatim>\<open>ModVerify\<close> both build
  in \<^verbatim>\<open>yy_i\<close>.
\<close>

definition yy :: "int \<Rightarrow> int \<Rightarrow> int \<Rightarrow> bool \<Rightarrow> bool \<Rightarrow> int" where
  "yy w y_i N a b =
     (let v = y_i;
          v = (if b then v * w else v);
          v = (if a then - v else v)
      in v mod \<bar>N\<bar>)"

text \<open>
  \<^verbatim>\<open>DefineXi\<close> tries \<open>a\<close>, then \<open>b\<close>, over false and true, and returns the first
  quartic root found; \<^term>\<open>None\<close> is the panic "no root found".  It is called with
  the modulus \<open>N = p \<cdot> q\<close> of the key, which is not zero.
\<close>

fun DefineXi_search ::
  "int \<Rightarrow> int \<Rightarrow> int \<Rightarrow> int \<Rightarrow> int \<Rightarrow> (bool \<times> bool) list \<Rightarrow> (bool \<times> bool \<times> int) option" where
  "DefineXi_search w y_i p q N [] = None"
| "DefineXi_search w y_i p q N ((a, b) # rest) =
     (case CompMod4thRt (yy w y_i N a b) p q N of
        [] \<Rightarrow> DefineXi_search w y_i p q N rest
      | x # _ \<Rightarrow> Some (a, b, x))"

definition DefineXi :: "int \<Rightarrow> int \<Rightarrow> int \<Rightarrow> int \<Rightarrow> int \<Rightarrow> (bool \<times> bool \<times> int) option" where
  "DefineXi w y_i p q N =
     DefineXi_search w y_i p q N [(False, False), (False, True), (True, False), (True, True)]"

text \<open>
  The sampling loop of \<^verbatim>\<open>ModProof\<close>: draw \<open>w\<close> below \<open>N\<close> until its Jacobi symbol is
  -1.  It returns nothing when no draw ever has that symbol.
\<close>

partial_function (option) sample_w :: "(nat \<Rightarrow> int) \<Rightarrow> int \<Rightarrow> nat \<Rightarrow> int option" where
  "sample_w rnd N k =
     (case GetRandomPositiveInt rnd k N of
        None \<Rightarrow> None
      | Some w \<Rightarrow> if Jacobi w N = - 1 then Some w else sample_w rnd N (Suc k))"

text \<open>
  One round of the loop over the challenges: the pair \<open>(a\<^sub>i, b\<^sub>i)\<close> with the root
  \<open>x\<^sub>i\<close>, and \<open>z\<^sub>i = y\<^sub>i\<^bsup>d\<^esup> mod N\<close> for \<open>d\<close> the inverse of \<open>N\<close> modulo
  \<open>\<phi>(N)\<close>.  \<^term>\<open>None\<close> is a panic: no root, or a nil inverse.
\<close>

definition ModProof_round ::
  "int \<Rightarrow> int \<Rightarrow> int \<Rightarrow> int \<Rightarrow> int \<Rightarrow> int \<Rightarrow> (int \<times> bool \<times> bool \<times> int) option" where
  "ModProof_round w p q N phiN y_i =
     (case DefineXi w y_i p q N of
        None \<Rightarrow> None
      | Some (a_i, b_i, x_i) \<Rightarrow>
          (case ModInverse N phiN of
             None \<Rightarrow> None
           | Some d \<Rightarrow>
               (case Exp y_i d N of
                  None \<Rightarrow> None
                | Some z_i \<Rightarrow> Some (x_i, a_i, b_i, z_i))))"

text \<open>
  \<^verbatim>\<open>ModProof()\<close>.  A modulus that is not positive makes the sampler return nil and
  an even one makes \<^verbatim>\<open>big.Jacobi\<close> panic, both in the first round of the sampling
  loop.
\<close>

definition ModProof ::
  "(int \<Rightarrow> int list \<Rightarrow> int) \<Rightarrow> (nat \<Rightarrow> int) \<Rightarrow> PrivateKey \<Rightarrow> ModProof outcome" where
  "ModProof h rnd privateKey =
     (let N = pk_N privateKey; phiN = pk_PhiN privateKey;
          p = pk_P privateKey; q = pk_Q privateKey
      in if N \<le> 0 \<or> even N then Panics
         else case sample_w rnd N 0 of
                None \<Rightarrow> Diverges
              | Some w \<Rightarrow>
                  (let y = ModChallenge h N w
                   in case those (map (ModProof_round w p q N phiN) y) of
                        None \<Rightarrow> Panics
                      | Some rs \<Rightarrow>
                          Returns \<lparr>mp_W = w,
                            mp_X = map (\<lambda>(x, a, b, z). x) rs,
                            mp_A = map (\<lambda>(x, a, b, z). a) rs,
                            mp_B = map (\<lambda>(x, a, b, z). b) rs,
                            mp_Z = map (\<lambda>(x, a, b, z). z) rs\<rparr>))"

text \<open>
  \<^verbatim>\<open>ModVerify(N)\<close>: the parity and primality tests, then for each index the check
  \<open>z\<^sub>i\<^bsup>N\<^esup> = y\<^sub>i\<close> and the check \<open>x\<^sub>i\<^sup>4 = (-1)\<^bsup>a\<^sub>i\<^esup> w\<^bsup>b\<^sub>i\<^esup> y\<^sub>i\<close>, returning at
  the first failure with the index and the two values.
\<close>

fun ModVerify_loop :: "ModProof \<Rightarrow> int \<Rightarrow> int list \<Rightarrow> nat list \<Rightarrow> (bool \<times> error option) outcome" where
  "ModVerify_loop pf N y [] = Returns (True, None)"
| "ModVerify_loop pf N y (i # is) =
     (case Exp (mp_Z pf ! i) N N of
        None \<Rightarrow> Panics
      | Some ziN \<Rightarrow>
          if ziN \<noteq> y ! i then Returns (False, Some (ModZMismatch i ziN (y ! i)))
          else (case Exp (mp_X pf ! i) 4 N of
                  None \<Rightarrow> Panics
                | Some xi4 \<Rightarrow>
                    (let yy_i = yy (mp_W pf) (y ! i) N (mp_A pf ! i) (mp_B pf ! i)
                     in if xi4 \<noteq> yy_i then Returns (False, Some (ModXMismatch i xi4 yy_i))
                        else ModVerify_loop pf N y is)))"

definition ModVerify ::
  "(int \<Rightarrow> int list \<Rightarrow> int) \<Rightarrow> ModProof \<Rightarrow> int \<Rightarrow> (bool \<times> error option) outcome" where
  "ModVerify h pf N =
     (let rem2 = N mod 2; odd = (rem2 = 1)
      in if \<not> odd then Returns (False, Some (ModEven N))
         else if ProbablyPrime N then Returns (False, Some (ModSeemsPrime N))
         else (let y = ModChallenge h N (mp_W pf) in ModVerify_loop pf N y [0..<PARAM_M]))"

section \<open>factor\_proof.go: verification of the no-small-factor proof\<close>






section \<open>messages.go and mod\_proof.go: the wire form of a ModProof\<close>

record KGRound1Message_ModProof =
  msg_W :: "byte list"
  msg_X :: "byte list list"
  msg_A :: "bool list"
  msg_B :: "bool list"
  msg_Z :: "byte list list"

text \<open>The \<^verbatim>\<open>Modproof\<close> field that \<^verbatim>\<open>NewKGRound1Message\<close> builds from a proof.\<close>

definition NewKGRound1Message_Modproof :: "ModProof \<Rightarrow> KGRound1Message_ModProof" where
  "NewKGRound1Message_Modproof modProof =
     \<lparr>msg_W = Bytes (mp_W modProof),
      msg_X = BigIntsToBytes (mp_X modProof),
      msg_A = mp_A modProof,
      msg_B = mp_B modProof,
      msg_Z = BigIntsToBytes (mp_Z modProof)\<rparr>"

definition UnmarshalModProof ::
  "byte list \<Rightarrow> byte list list \<Rightarrow> bool list \<Rightarrow> bool list \<Rightarrow> byte list list \<Rightarrow> error + ModProof" where
  "UnmarshalModProof ws xs as bs zs =
     (if length ws = 0 then Inl UnmarshalWZero
      else if length xs \<noteq> PARAM_M then Inl (UnmarshalXs (length xs))
      else if length as \<noteq> PARAM_M then Inl (UnmarshalAs (length as))
      else if length bs \<noteq> PARAM_M then Inl (UnmarshalBs (length bs))
      else if length zs \<noteq> PARAM_M then Inl (UnmarshalZs (length zs))
      else (let W = SetBytes ws;
                x = MultiBytesToBigInts xs;
                z = MultiBytesToBigInts zs
            in Inr \<lparr>mp_W = W,
                    mp_X = map (\<lambda>i. x ! i) [0..<PARAM_M],
                    mp_A = map (\<lambda>i. as ! i) [0..<PARAM_M],
                    mp_B = map (\<lambda>i. bs ! i) [0..<PARAM_M],
                    mp_Z = map (\<lambda>i. z ! i) [0..<PARAM_M]\<rparr>))"

text \<open>\<^verbatim>\<open>KGRound1Message.UnmarshalModProof\<close> passes the five fields on.\<close>

definition KGRound1Message_UnmarshalModProof :: "KGRound1Message_ModProof \<Rightarrow> error + ModProof" where
  "KGRound1Message_UnmarshalModProof p =
     UnmarshalModProof (msg_W p) (msg_X p) (msg_A p) (msg_B p) (msg_Z p)"

section \<open>The challenge bits\<close>

text \<open>
  C9.  \<^verbatim>\<open>BytesToBits(b)\<close> has exactly 80 entries, each 0 or 1, and entry \<open>i\<close> is bit
  \<open>i\<close> of \<open>b\<close>, least significant first.  For
  \<open>b = 0x0f0e0d0c0b0a090807060504030201\<close> the entries 0, 9, 16 and 17 are 1 and the
  entries 1 and 8 are 0.  (The statement needs no sign condition: on a negative
  argument both \<^verbatim>\<open>big.Int.Bit\<close> and \<^const>\<open>bit\<close> read the two's complement.)
\<close>

theorem BytesToBits_bits:
  "length (BytesToBits b) = 80
   \<and> (\<forall>i<80. BytesToBits b ! i = (if bit b i then 1 else 0))
   \<and> (\<forall>v\<in>set (BytesToBits b). v = 0 \<or> v = 1)
   \<and> BytesToBits 0x0f0e0d0c0b0a090807060504030201 ! 0 = 1
   \<and> BytesToBits 0x0f0e0d0c0b0a090807060504030201 ! 1 = 0
   \<and> BytesToBits 0x0f0e0d0c0b0a090807060504030201 ! 8 = 0
   \<and> BytesToBits 0x0f0e0d0c0b0a090807060504030201 ! 9 = 1
   \<and> BytesToBits 0x0f0e0d0c0b0a090807060504030201 ! 16 = 1
   \<and> BytesToBits 0x0f0e0d0c0b0a090807060504030201 ! 17 = 1"
proof -
  have entries: "\<forall>i<80. BytesToBits b ! i = (if bit b i then 1 else 0)"
    by (simp add: BytesToBits_nth)
  have zero_one: "\<forall>v\<in>set (BytesToBits b). v = 0 \<or> v = 1"
    by (auto simp: BytesToBits_def)
  show ?thesis
    using entries zero_one by (simp add: BytesToBits_length BytesToBits_nth)
qed

theorem BytesToBits_bits_witness:
  "length (BytesToBits 5) = 80 \<and> BytesToBits 5 ! 2 = 1 \<and> BytesToBits 5 ! 1 = 0"
  using BytesToBits_bits [of 5] by simp

section \<open>The wire form of a ModProof\<close>

lemma SetBytes_append: "SetBytes (bs @ [b]) = SetBytes bs * 256 + uint b"
  by (simp add: SetBytes_def)

lemma SetBytes_bytes_of_nat: "SetBytes (bytes_of_nat n) = int n"
proof (induction n rule: bytes_of_nat.induct)
  case (1 n)
  show ?case
  proof (cases "n = 0")
    case True
    then show ?thesis by (simp add: bytes_of_nat.simps SetBytes_def)
  next
    case False
    have u: "uint (of_nat (n mod 256) :: byte) = int (n mod 256)"
    proof -
      have "unat (of_nat (n mod 256) :: byte) = n mod 256"
        by (simp add: unat_of_nat)
      then show ?thesis
        by (metis of_nat_unat)
    qed
    from False have "bytes_of_nat n = bytes_of_nat (n div 256) @ [of_nat (n mod 256)]"
      by (subst bytes_of_nat.simps) simp
    then have "SetBytes (bytes_of_nat n) = int (n div 256) * 256 + int (n mod 256)"
      using 1 False by (simp add: SetBytes_append u del: of_nat_mod of_nat_div)
    also have "\<dots> = int n" by (simp add: zmod_int zdiv_int flip: of_nat_mult of_nat_add)
    finally show ?thesis .
  qed
qed

lemma SetBytes_Bytes: "SetBytes (Bytes x) = \<bar>x\<bar>"
  by (simp add: Bytes_def SetBytes_bytes_of_nat)

lemma Bytes_empty_iff: "Bytes x = [] \<longleftrightarrow> x = 0"
  by (subst Bytes_def, subst bytes_of_nat.simps) auto

lemma map_nth_upt_80: "length xs = 80 \<Longrightarrow> map (\<lambda>i. xs ! i) [0..<80] = xs"
  by (metis map_nth)

lemma MultiBytesToBigInts_BigIntsToBytes:
  "\<forall>x\<in>set xs. 0 \<le> x \<Longrightarrow> MultiBytesToBigInts (BigIntsToBytes xs) = xs"
  by (induction xs) (simp_all add: MultiBytesToBigInts_def BigIntsToBytes_def SetBytes_Bytes)

text \<open>
  C10.  \<^verbatim>\<open>NewKGRound1Message\<close> encodes \<open>W\<close> with \<^verbatim>\<open>Bytes()\<close>, the empty string for
  \<open>W = 0\<close>, and \<^verbatim>\<open>UnmarshalModProof\<close> refuses an empty \<open>W\<close>.  For a proof with arrays of
  80 entries and non-negative \<open>X\<close> and \<open>Z\<close>, decoding the encoded proof gives the
  proof back exactly when \<open>W \<ge> 1\<close>, and for \<open>W = 0\<close> it is the decode error
  "W length zero".
\<close>

theorem ModProof_wire_roundtrip:
  assumes len: "length (mp_X pf) = 80" "length (mp_A pf) = 80"
               "length (mp_B pf) = 80" "length (mp_Z pf) = 80"
      and nonneg: "\<forall>x\<in>set (mp_X pf). 0 \<le> x" "\<forall>z\<in>set (mp_Z pf). 0 \<le> z"
  shows "(KGRound1Message_UnmarshalModProof (NewKGRound1Message_Modproof pf) = Inr pf
            \<longleftrightarrow> 1 \<le> mp_W pf)
       \<and> (mp_W pf = 0 \<longrightarrow>
            KGRound1Message_UnmarshalModProof (NewKGRound1Message_Modproof pf) = Inl UnmarshalWZero)"
proof -
  let ?r = "KGRound1Message_UnmarshalModProof (NewKGRound1Message_Modproof pf)"
  have zero: "?r = Inl UnmarshalWZero" if "mp_W pf = 0"
    using that
    by (simp add: KGRound1Message_UnmarshalModProof_def NewKGRound1Message_Modproof_def
        UnmarshalModProof_def Bytes_empty_iff)
  have nz: "?r = Inr (pf\<lparr>mp_W := \<bar>mp_W pf\<bar>\<rparr>)" if "mp_W pf \<noteq> 0"
  proof -
    have lb: "length (BigIntsToBytes (mp_X pf)) = 80" "length (BigIntsToBytes (mp_Z pf)) = 80"
      using len by (simp_all add: BigIntsToBytes_def)
    have "?r = Inr \<lparr>mp_W = \<bar>mp_W pf\<bar>,
                    mp_X = map (\<lambda>i. mp_X pf ! i) [0..<80],
                    mp_A = map (\<lambda>i. mp_A pf ! i) [0..<80],
                    mp_B = map (\<lambda>i. mp_B pf ! i) [0..<80],
                    mp_Z = map (\<lambda>i. mp_Z pf ! i) [0..<80]\<rparr>"
      using that len lb nonneg
      by (simp add: KGRound1Message_UnmarshalModProof_def NewKGRound1Message_Modproof_def
          UnmarshalModProof_def Bytes_empty_iff PARAM_M_def SetBytes_Bytes
          MultiBytesToBigInts_BigIntsToBytes Let_def)
    also have "\<dots> = Inr (pf\<lparr>mp_W := \<bar>mp_W pf\<bar>\<rparr>)"
      using len by (simp add: map_nth_upt_80)
    finally show ?thesis .
  qed
  have "?r = Inr pf \<longleftrightarrow> 1 \<le> mp_W pf"
  proof (cases "mp_W pf = 0")
    case True
    then show ?thesis using zero by simp
  next
    case False
    have "pf\<lparr>mp_W := \<bar>mp_W pf\<bar>\<rparr> = pf \<longleftrightarrow> \<bar>mp_W pf\<bar> = mp_W pf"
      by (metis ModProof.select_convs(1) ModProof.surjective ModProof.update_convs(1))
    with False nz show ?thesis by auto
  qed
  with zero show ?thesis by blast
qed

theorem ModProof_wire_roundtrip_witness:
  "KGRound1Message_UnmarshalModProof (NewKGRound1Message_Modproof
       \<lparr>mp_W = 5, mp_X = replicate 80 3, mp_A = replicate 80 True,
        mp_B = replicate 80 False, mp_Z = replicate 80 7\<rparr>)
     = Inr \<lparr>mp_W = 5, mp_X = replicate 80 3, mp_A = replicate 80 True,
        mp_B = replicate 80 False, mp_Z = replicate 80 7\<rparr>
   \<and> KGRound1Message_UnmarshalModProof (NewKGRound1Message_Modproof
       \<lparr>mp_W = 0, mp_X = replicate 80 3, mp_A = replicate 80 True,
        mp_B = replicate 80 False, mp_Z = replicate 80 7\<rparr>)
     = Inl UnmarshalWZero"
  using ModProof_wire_roundtrip [of "\<lparr>mp_W = 5, mp_X = replicate 80 3, mp_A = replicate 80 True,
        mp_B = replicate 80 False, mp_Z = replicate 80 7\<rparr>"]
    ModProof_wire_roundtrip [of "\<lparr>mp_W = 0, mp_X = replicate 80 3, mp_A = replicate 80 True,
        mp_B = replicate 80 False, mp_Z = replicate 80 7\<rparr>"]
  by simp

section \<open>Number theory: primes and Fermat's little theorem\<close>

text \<open>
  The proofs below need some elementary number theory for the executable predicate
  \<^const>\<open>is_prime\<close>: Euclid's lemma, and Fermat's little theorem by way of the
  binomial theorem.
\<close>

lemma is_prime_gt1: "is_prime p \<Longrightarrow> 1 < p"
  by (simp add: is_prime_alt)

lemma is_prime_divisor:
  assumes "is_prime p" "d dvd p" "0 \<le> d"
  shows "d = 1 \<or> d = p"
proof -
  from assms have p: "1 < p" by (simp add: is_prime_alt)
  from assms(2) p have "d \<le> p" by (intro zdvd_imp_le) auto
  moreover from assms(2) p have "d \<noteq> 0" by auto
  moreover have "\<not> (2 \<le> d \<and> d < p)"
    using assms(1,2) by (auto simp: is_prime_alt)
  ultimately show ?thesis using assms(3) by linarith
qed

lemma is_prime_coprime:
  assumes "is_prime p" "\<not> p dvd a"
  shows "coprime p a"
proof -
  have "gcd p a dvd p" "0 \<le> gcd p a" by simp_all
  with assms(1) have "gcd p a = 1 \<or> gcd p a = p" by (rule is_prime_divisor)
  moreover have "gcd p a \<noteq> p" using assms(2) by (metis gcd_dvd2)
  ultimately show ?thesis by (simp add: coprime_iff_gcd_eq_1)
qed

lemma is_prime_dvd_mult:
  assumes "is_prime p" "p dvd a * b"
  shows "p dvd a \<or> p dvd b"
proof (cases "p dvd a")
  case False
  with assms(1) have "coprime p a" by (rule is_prime_coprime)
  with assms(2) show ?thesis by (simp add: coprime_dvd_mult_right_iff)
qed simp

lemma is_prime_dvd_power: "is_prime p \<Longrightarrow> p dvd a ^ n \<Longrightarrow> p dvd a"
proof (induction n)
  case 0
  then show ?case using is_prime_gt1 [of p] by simp
next
  case (Suc n)
  then show ?case using is_prime_dvd_mult [of p a "a ^ n"] by auto
qed

lemma is_prime_dvd_choose:
  assumes p: "is_prime p" and k: "0 < k" "k < nat p"
  shows "p dvd int (nat p choose k)"
proof -
  obtain m where m: "nat p = Suc m" using k by (cases "nat p") auto
  obtain j where j: "k = Suc j" using k by (cases k) auto
  have "Suc j * (Suc m choose Suc j) = Suc m * (m choose j)"
    by (metis Suc_times_binomial_eq mult.commute)
  then have "int k * int (nat p choose k) = p * int (m choose j)"
    using m j is_prime_gt1 [OF p]
    by (metis int_nat_eq of_nat_mult less_imp_le order.strict_trans zero_less_one nat_0_le le_less)
  then have "p dvd int k * int (nat p choose k)" by simp
  moreover have "\<not> p dvd int k"
  proof
    assume "p dvd int k"
    then have "p \<le> int k" using k by (intro zdvd_imp_le) auto
    with k show False by linarith
  qed
  ultimately show ?thesis using is_prime_dvd_mult [OF p] by blast
qed

lemma freshman_dream:
  assumes p: "is_prime p"
  shows "(a + 1) ^ nat p mod p = (a ^ nat p + 1) mod (p::int)"
proof -
  let ?n = "nat p"
  have n: "1 < ?n" using is_prime_gt1 [OF p] by simp
  have "(a + 1) ^ ?n = (\<Sum>k\<le>?n. int (?n choose k) * a ^ k * 1 ^ (?n - k))"
    by (rule binomial_ring)
  also have "\<dots> = (\<Sum>k\<le>?n. int (?n choose k) * a ^ k)" by simp
  also have "{..?n} = insert 0 (insert ?n {1..<?n})" using n by auto
  also have "(\<Sum>k\<in>insert 0 (insert ?n {1..<?n}). int (?n choose k) * a ^ k)
      = 1 + a ^ ?n + (\<Sum>k\<in>{1..<?n}. int (?n choose k) * a ^ k)"
    using n by simp
  finally have "(a + 1) ^ ?n - (a ^ ?n + 1) = (\<Sum>k\<in>{1..<?n}. int (?n choose k) * a ^ k)"
    by simp
  moreover have "p dvd (\<Sum>k\<in>{1..<?n}. int (?n choose k) * a ^ k)"
    by (rule dvd_sum) (use is_prime_dvd_choose [OF p] in auto)
  ultimately have "p dvd (a + 1) ^ ?n - (a ^ ?n + 1)" by simp
  then show ?thesis by (simp add: mod_eq_dvd_iff)
qed

lemma fermat_nat: "is_prime p \<Longrightarrow> int a ^ nat p mod p = int a mod p"
proof (induction a)
  case 0
  then show ?case using is_prime_gt1 [of p] by (simp add: power_0_left)
next
  case (Suc a)
  have "int (Suc a) ^ nat p mod p = (int a + 1) ^ nat p mod p" by (simp add: add.commute)
  also have "\<dots> = (int a ^ nat p + 1) mod p" using Suc.prems by (rule freshman_dream)
  also have "\<dots> = (int a ^ nat p mod p + 1) mod p" by (simp add: mod_add_left_eq)
  also have "\<dots> = (int a mod p + 1) mod p" using Suc by simp
  also have "\<dots> = (int a + 1) mod p" by (rule mod_add_left_eq)
  also have "\<dots> = int (Suc a) mod p" by (simp add: add.commute)
  finally show ?case .
qed

lemma fermat_pow_p:
  assumes "is_prime p"
  shows "a ^ nat p mod p = a mod p"
proof -
  have "0 \<le> a mod p" using is_prime_gt1 [OF assms] by simp
  then obtain m where m: "a mod p = int m" using nonneg_int_cases by blast
  have "a ^ nat p mod p = (a mod p) ^ nat p mod p" by (simp add: power_mod)
  also have "\<dots> = int m mod p" unfolding m using assms by (rule fermat_nat)
  also have "\<dots> = a mod p" using m by (metis mod_mod_trivial)
  finally show ?thesis .
qed

lemma fermat_little:
  assumes p: "is_prime p" and a: "\<not> p dvd a"
  shows "a ^ nat (p - 1) mod p = 1"
proof -
  have p1: "1 < p" using p by (rule is_prime_gt1)
  then have "nat p = Suc (nat (p - 1))" by simp
  then have "a ^ nat p = a * a ^ nat (p - 1)" by simp
  with fermat_pow_p [OF p, of a] have "(a * a ^ nat (p - 1)) mod p = (a * 1) mod p" by simp
  then have "p dvd a * a ^ nat (p - 1) - a * 1" by (simp add: mod_eq_dvd_iff)
  then have "p dvd a * (a ^ nat (p - 1) - 1)" by (simp add: right_diff_distrib)
  with a have "p dvd a ^ nat (p - 1) - 1" using is_prime_dvd_mult [OF p] by blast
  then have "a ^ nat (p - 1) mod p = 1 mod p" by (simp add: mod_eq_dvd_iff)
  then show ?thesis using p1 by simp
qed

section \<open>Number theory: two distinct primes\<close>

lemma distinct_primes_coprime:
  assumes "is_prime p" "is_prime q" "p \<noteq> q"
  shows "coprime p q"
proof (rule is_prime_coprime [OF assms(1)])
  show "\<not> p dvd q"
  proof
    assume "p dvd q"
    with assms(2) have "p = 1 \<or> p = q"
      using is_prime_gt1 [OF assms(1)] by (intro is_prime_divisor) auto
    with assms(3) is_prime_gt1 [OF assms(1)] show False by auto
  qed
qed

lemma crt_unique:
  fixes p q x y :: int
  assumes "coprime p q" "x mod p = y mod p" "x mod q = y mod q"
  shows "x mod (p * q) = y mod (p * q)"
proof -
  from assms(2,3) have "p dvd x - y" "q dvd x - y" by (simp_all add: mod_eq_dvd_iff)
  with assms(1) have "p * q dvd x - y" by (simp add: divides_mult)
  then show ?thesis by (simp add: mod_eq_dvd_iff)
qed

lemma pow_cycle_prime:
  assumes p: "is_prime p"
  shows "a ^ (1 + k * nat (p - 1)) mod p = a mod p"
proof (cases "p dvd a")
  case True
  then have "p dvd a ^ (1 + k * nat (p - 1))" by (simp add: dvd_power)
  with True show ?thesis by (simp add: mod_eq_0_iff_dvd)
next
  case False
  have "a ^ (1 + k * nat (p - 1)) mod p = (a * (a ^ nat (p - 1)) ^ k) mod p"
    by (simp add: power_add mult.commute [of k] power_mult)
  also have "\<dots> = (a * ((a ^ nat (p - 1) mod p) ^ k mod p)) mod p"
    by (simp add: power_mod mod_mult_right_eq)
  also have "\<dots> = a mod p"
    using fermat_little [OF p False] is_prime_gt1 [OF p] by simp
  finally show ?thesis .
qed

lemma pow_cycle_pq:
  assumes p: "is_prime p" and q: "is_prime q" and pq: "p \<noteq> q"
  shows "a ^ (1 + k * nat ((p - 1) * (q - 1))) mod (p * q) = a mod (p * q)"
proof -
  have p1: "1 < p" and q1: "1 < q" using p q by (auto dest: is_prime_gt1)
  have e: "nat ((p - 1) * (q - 1)) = nat (p - 1) * nat (q - 1)"
    using p1 q1 by (simp add: nat_mult_distrib)
  have "1 + k * nat ((p - 1) * (q - 1)) = 1 + (k * nat (q - 1)) * nat (p - 1)"
    by (simp add: e mult_ac)
  then have mp: "a ^ (1 + k * nat ((p - 1) * (q - 1))) mod p = a mod p"
    by (simp only: pow_cycle_prime [OF p])
  have "1 + k * nat ((p - 1) * (q - 1)) = 1 + (k * nat (p - 1)) * nat (q - 1)"
    by (simp add: e mult_ac)
  then have mq: "a ^ (1 + k * nat ((p - 1) * (q - 1))) mod q = a mod q"
    by (simp only: pow_cycle_prime [OF q])
  from distinct_primes_coprime [OF p q pq] mp mq show ?thesis by (rule crt_unique)
qed

lemma pow_mod_one:
  "1 < m \<Longrightarrow> a ^ n mod m = 1 \<Longrightarrow> a ^ (k * n) mod m = 1" for a m :: int
  by (metis mod_less mult.commute power_mod power_mult power_one zero_le_one mod_pos_pos_trivial)

lemma euler_pq:
  assumes p: "is_prime p" and q: "is_prime q" and pq: "p \<noteq> q"
      and a: "coprime a (p * q)"
  shows "a ^ (k * nat ((p - 1) * (q - 1))) mod (p * q) = 1"
proof -
  have p1: "1 < p" and q1: "1 < q" using p q by (auto dest: is_prime_gt1)
  have e: "nat ((p - 1) * (q - 1)) = nat (p - 1) * nat (q - 1)"
    using p1 q1 by (simp add: nat_mult_distrib)
  have np: "\<not> p dvd a" "\<not> q dvd a"
    using a p1 q1 by (auto simp: coprime_mult_right_iff dest: coprime_common_divisor)
  have "a ^ (k * nat (q - 1) * nat (p - 1)) mod p = 1"
    using fermat_little [OF p np(1)] p1 by (rule pow_mod_one [rotated])
  then have mp: "a ^ (k * nat ((p - 1) * (q - 1))) mod p = 1 mod p"
    using p1 by (simp add: e mult_ac)
  have "a ^ (k * nat (p - 1) * nat (q - 1)) mod q = 1"
    using fermat_little [OF q np(2)] q1 by (rule pow_mod_one [rotated])
  then have mq: "a ^ (k * nat ((p - 1) * (q - 1))) mod q = 1 mod q"
    using q1 by (simp add: e mult_ac)
  have "a ^ (k * nat ((p - 1) * (q - 1))) mod (p * q) = 1 mod (p * q)"
    using distinct_primes_coprime [OF p q pq] mp mq by (rule crt_unique)
  moreover have "1 < p * q" using p1 q1 by (simp add: less_1_mult)
  ultimately show ?thesis by simp
qed

section \<open>Euclid's algorithm, inverses and powers\<close>

lemma egcd_correct:
  "0 \<le> a \<Longrightarrow> 0 \<le> b \<Longrightarrow> egcd a b = (g, x, y) \<Longrightarrow> g = gcd a b \<and> a * x + b * y = g"
proof (induction a b arbitrary: g x y rule: egcd.induct)
  case (1 a b)
  show ?case
  proof (cases "b \<le> 0")
    case True
    with "1.prems" have "b = 0" by simp
    with "1.prems" show ?thesis by (simp add: egcd.simps [of a 0])
  next
    case False
    then have b: "0 < b" by simp
    obtain g' x' y' where r: "egcd b (a mod b) = (g', x', y')" by (metis prod_cases3)
    have ih: "g' = gcd b (a mod b) \<and> b * x' + (a mod b) * y' = g'"
      using "1.IH" [OF False _ _ r] b by simp
    have "egcd a b = (g', y', x' - (a div b) * y')"
      using False r by (simp add: egcd.simps [of a b])
    with "1.prems"(3) have res: "g = g'" "x = y'" "y = x' - (a div b) * y'"
      by auto
    have "gcd b (a mod b) = gcd a b" by (metis gcd_red_int)
    moreover have "a * y' + b * (x' - (a div b) * y') = b * x' + (a mod b) * y'"
    proof -
      obtain r d where rd: "r = a mod b" "d = a div b" by simp
      then have "a = b * d + r" by simp
      then have "a * y' + b * (x' - d * y') = b * x' + r * y'" by (simp add: algebra_simps)
      then show ?thesis by (simp only: rd)
    qed
    ultimately show ?thesis using ih res by simp
  qed
qed

lemma ModInverse_Some:
  assumes n: "0 < n" and g: "0 \<le> g" and c: "coprime g n"
  shows "\<exists>d. ModInverse g n = Some d \<and> 0 \<le> d \<and> d < n \<and> (g * d) mod n = 1 mod n"
proof -
  obtain d x y where r: "egcd g n = (d, x, y)" by (metis prod_cases3)
  from egcd_correct [OF g _ r] n have d: "d = gcd g n" and bez: "g * x + n * y = d" by auto
  from c d have d1: "d = 1" by (simp add: coprime_iff_gcd_eq_1)
  have "(g * (x mod n)) mod n = (g * x) mod n" by (simp add: mod_mult_right_eq)
  also have "\<dots> = (g * x + n * y) mod n" by simp
  also have "\<dots> = 1 mod n" using bez d1 by simp
  finally have "(g * (x mod n)) mod n = 1 mod n" .
  moreover have "ModInverse g n = Some (x mod n)"
    using n g r d1 by (simp add: ModInverse_def)
  ultimately show ?thesis using n by simp
qed


lemma Exp_nonneg: "0 \<le> y \<Longrightarrow> 0 < m \<Longrightarrow> Exp x y m = Some (x ^ nat y mod m)"
  by (simp add: Exp_def)

section \<open>Fixtures for the concrete instances\<close>

text \<open>
  A digest that is constantly 1 (its only set bit is bit 0, so the first challenge bit
  is 1 and the others are 0), a random source that always draws 0, and a few small
  primes.
\<close>


definition sha_one :: "int list \<Rightarrow> int" where
  "sha_one xs = 1"

definition rnd_zero :: "nat \<Rightarrow> int" where
  "rnd_zero k = 0"

lemma is_prime_3: "is_prime 3" by code_simp
lemma is_prime_5: "is_prime 5" by code_simp
lemma is_prime_7: "is_prime 7" by code_simp

section \<open>The ring-Pedersen parameter proof\<close>


lemma those_map_Some:
  "(\<And>x. x \<in> set xs \<Longrightarrow> f x = Some (g x)) \<Longrightarrow> those (map f xs) = Some (map g xs)"
  by (induction xs) simp_all

lemma pow_mod_totient:
  assumes p: "is_prime p" and q: "is_prime q" and pq: "p \<noteq> q"
      and t: "coprime t (p * q)" and x: "0 \<le> x"
  shows "t ^ nat (x mod ((p - 1) * (q - 1))) mod (p * q) = t ^ nat x mod (p * q)"
proof -
  let ?phi = "(p - 1) * (q - 1)"
  have phi: "0 < ?phi" using is_prime_gt1 [OF p] is_prime_gt1 [OF q] by simp
  have N: "1 < p * q" using is_prime_gt1 [OF p] is_prime_gt1 [OF q] by (simp add: less_1_mult)
  define k where "k = nat (x div ?phi)"
  have "x = x mod ?phi + ?phi * (x div ?phi)" by simp
  moreover have "0 \<le> x div ?phi" using x phi by (simp add: pos_imp_zdiv_nonneg_iff)
  moreover have "0 \<le> x mod ?phi" using phi by simp
  ultimately have "nat x = nat (x mod ?phi) + k * nat ?phi"
    unfolding k_def using phi
    by (metis nat_add_distrib nat_mult_distrib mult.commute mult_nonneg_nonneg less_imp_le)
  then have "t ^ nat x mod (p * q) = (t ^ nat (x mod ?phi) * t ^ (k * nat ?phi)) mod (p * q)"
    by (simp add: power_add)
  also have "\<dots> = (t ^ nat (x mod ?phi) * (t ^ (k * nat ?phi) mod (p * q))) mod (p * q)"
    by (simp add: mod_mult_right_eq)
  also have "\<dots> = t ^ nat (x mod ?phi) mod (p * q)"
    using euler_pq [OF p q pq t, of k] by simp
  finally show ?thesis by simp
qed

lemma ParamVerify_loop_accepts:
  assumes "0 < N"
      and "\<And>i. i \<in> set ixs \<Longrightarrow> 0 \<le> Z ! i \<and> 0 \<le> uint (e ! i)
             \<and> t ^ nat (Z ! i) mod N = (A ! i * (s ^ nat (uint (e ! i)) mod N)) mod N"
  shows "ParamVerify_loop N s t A Z e ixs = Returns True"
  using assms
proof (induction ixs)
  case Nil
  then show ?case by simp
next
  case (Cons i ixs)
  from Cons.prems(2) [of i] have i: "0 \<le> Z ! i" "0 \<le> uint (e ! i)"
    "t ^ nat (Z ! i) mod N = (A ! i * (s ^ nat (uint (e ! i)) mod N)) mod N" by simp_all
  have "ModInt_Exp N t (Z ! i) = Some (t ^ nat (Z ! i) mod N)"
    using i(1) Cons.prems(1) by (simp add: ModInt_Exp_def Exp_nonneg)
  moreover have "ModInt_MulExp N (A ! i) s (uint (e ! i))
      = Some ((A ! i * (s ^ nat (uint (e ! i)) mod N)) mod N)"
    using i(2) Cons.prems(1) by (simp add: ModInt_MulExp_def Exp_nonneg)
  moreover have "ParamVerify_loop N s t A Z e ixs = Returns True"
    using Cons.prems by (intro Cons.IH) auto
  ultimately show ?case using i(3) by simp
qed

lemma BytesToBits_uint: "i < 80 \<Longrightarrow> uint (BytesToBits b ! i) = (if bit b i then 1 else 0)"
  by (simp add: BytesToBits_nth)

text \<open>
  C3, as amended.  The code proves knowledge of \<open>lambda\<close> with \<open>s = t\<^bsup>lambda\<^esup> mod N\<close>
  (the relation its test sets up), not \<open>t = s\<^bsup>lambda\<^esup> mod N\<close>.  For \<open>N = p \<cdot> q\<close> with
  distinct primes \<open>p\<close>, \<open>q\<close>, \<open>\<phi>(N) = (p - 1)(q - 1)\<close>, \<open>t\<close> coprime to \<open>N\<close>, a
  non-negative \<open>lambda\<close> and \<open>s = t\<^bsup>lambda\<^esup> mod N\<close>, and for every digest and every
  outcome of the sampling, \<^verbatim>\<open>ParamProof(s, t, lambda)\<close> returns a proof that
  \<^verbatim>\<open>ParamVerify(N, s, t)\<close> accepts.
\<close>


theorem ParamProof_complete:
  assumes p: "is_prime p" and q: "is_prime q" and pq: "p \<noteq> q"
      and key: "pk_N key = p * q" "pk_PhiN key = (p - 1) * (q - 1)"
      and t: "coprime t (p * q)" and l: "0 \<le> lambda"
      and s: "s = t ^ nat lambda mod (p * q)"
  shows "\<exists>pf. ParamProof sha rnd key s t lambda = Returns pf
            \<and> ParamVerify sha pf (Some (p * q)) (Some s) (Some t) = Returns True"
proof -
  let ?N = "p * q" and ?phi = "(p - 1) * (q - 1)"
  have phi: "0 < ?phi" using is_prime_gt1 [OF p] is_prime_gt1 [OF q] by simp
  have N: "1 < ?N" using is_prime_gt1 [OF p] is_prime_gt1 [OF q] by (simp add: less_1_mult)
  define a where "a = map (\<lambda>i. rnd i mod ?phi) [0..<PARAM_M]"
  define A where "A = map (\<lambda>i. t ^ nat (a ! i) mod ?N) [0..<PARAM_M]"
  define e where "e = ParamChallenge sha ?N s t A"
  define z where "z = map (\<lambda>i. ModInt_Add ?phi (a ! i) (ModInt_Mul ?phi (uint (e ! i)) lambda))
                        [0..<PARAM_M]"
  define pf where "pf = \<lparr>pp_A = map Some A, pp_Z = map Some z\<rparr>"
  have a_nth: "a ! i = rnd i mod ?phi" if "i < 80" for i
    using that by (simp add: a_def PARAM_M_def)
  have a_nonneg: "0 \<le> a ! i" if "i < 80" for i
    using that phi by (simp add: a_nth)
  have samples: "those (map (\<lambda>i. GetRandomPositiveInt rnd i ?phi) [0..<PARAM_M]) = Some a"
    unfolding a_def using phi by (intro those_map_Some) (simp add: GetRandomPositiveInt_def)
  have commits: "those (map (\<lambda>i. ModInt_Exp ?N t (a ! i)) [0..<PARAM_M]) = Some A"
    unfolding A_def using N a_nonneg
    by (intro those_map_Some) (simp add: ModInt_Exp_def Exp_nonneg PARAM_M_def)
  have gen: "ParamProof sha rnd key s t lambda = Returns pf"
    by (simp add: ParamProof_def key samples commits Let_def pf_def z_def e_def)
  have e_len: "e = BytesToBits (sha [?N, s, t, sha A])"
    by (simp add: e_def ParamChallenge_def)
  have e_nth: "uint (e ! i) = 0 \<or> uint (e ! i) = 1" if "i < 80" for i
    using that by (simp add: e_len BytesToBits_uint)
  have check: "0 \<le> z ! i \<and> 0 \<le> uint (e ! i)
      \<and> t ^ nat (z ! i) mod ?N = (A ! i * (s ^ nat (uint (e ! i)) mod ?N)) mod ?N"
    if i: "i < 80" for i
  proof -
    have zi: "z ! i = (a ! i + (uint (e ! i) * lambda) mod ?phi) mod ?phi"
      using i phi by (simp add: z_def PARAM_M_def ModInt_Add_def ModInt_Mul_def)
    then have zi': "z ! i = (a ! i + uint (e ! i) * lambda) mod ?phi"
      by (simp add: mod_add_right_eq)
    have Ai: "A ! i = t ^ nat (a ! i) mod ?N" using i by (simp add: A_def PARAM_M_def)
    have nn: "0 \<le> a ! i + uint (e ! i) * lambda" using a_nonneg [OF i] l by simp
    have "t ^ nat (z ! i) mod ?N = t ^ nat (a ! i + uint (e ! i) * lambda) mod ?N"
      unfolding zi' using p q pq t nn by (rule pow_mod_totient)
    also have "\<dots> = (A ! i * (s ^ nat (uint (e ! i)) mod ?N)) mod ?N"
    proof (cases "uint (e ! i) = 0")
      case True
      then show ?thesis using N by (simp add: Ai)
    next
      case False
      with e_nth [OF i] have one: "uint (e ! i) = 1" by simp
      have "nat (a ! i + lambda) = nat (a ! i) + nat lambda"
        using a_nonneg [OF i] l by (simp add: nat_add_distrib)
      then have "t ^ nat (a ! i + lambda) mod ?N = (t ^ nat (a ! i) * t ^ nat lambda) mod ?N"
        by (simp add: power_add)
      also have "\<dots> = (A ! i * s) mod ?N"
        by (simp add: Ai s mod_mult_eq)
      finally show ?thesis using one s by simp
    qed
    finally have "t ^ nat (z ! i) mod ?N = (A ! i * (s ^ nat (uint (e ! i)) mod ?N)) mod ?N" .
    moreover have "0 \<le> z ! i" using phi by (simp add: zi)
    ultimately show ?thesis by simp
  qed
  have "ParamVerify_loop ?N s t A z e [0..<PARAM_M] = Returns True"
    using N check by (intro ParamVerify_loop_accepts) (auto simp: PARAM_M_def)
  moreover have "\<not> AnyIsNil (map Some A)" "\<not> AnyIsNil (map Some z)"
    by (auto simp: AnyIsNil_def)
  ultimately have "ParamVerify sha pf (Some ?N) (Some s) (Some t) = Returns True"
    by (simp add: ParamVerify_def pf_def AnyIsNil_def e_def comp_def)
  with gen show ?thesis by blast
qed

theorem ParamProof_complete_witness:
  "\<exists>pf. ParamProof sha_one rnd_zero \<lparr>pk_N = 15, pk_PhiN = 8, pk_P = 3, pk_Q = 5\<rparr> 1 4 2 = Returns pf
      \<and> ParamVerify sha_one pf (Some 15) (Some 1) (Some 4) = Returns True"
proof -
  have "coprime (4::int) (3 * 5)" by code_simp
  moreover have "(1::int) = 4 ^ nat 2 mod (3 * 5)" by simp
  ultimately show ?thesis
    using ParamProof_complete [of 3 5 "\<lparr>pk_N = 15, pk_PhiN = 8, pk_P = 3, pk_Q = 5\<rparr>" 4 2 1 sha_one rnd_zero]
      is_prime_3 is_prime_5
    by simp
qed

text \<open>
  C3, as stated, fails.  With \<open>N = 3 \<cdot> 5\<close>, \<open>\<phi>(N) = 8\<close>, \<open>s = 2\<close>, \<open>lambda = 2\<close> and
  \<open>t = s\<^bsup>lambda\<^esup> mod N = 4\<close>, both coprime to \<open>N\<close>, the proof that \<^verbatim>\<open>ParamProof\<close>
  returns is rejected: at index 0 the challenge bit is 1, \<open>z\<^sub>0 = 2\<close>, and
  \<open>t\<^sup>2 mod 15 = 1\<close> differs from \<open>A\<^sub>0 \<cdot> s mod 15 = 2\<close>.
\<close>

theorem ParamProof_spec_relation_counterexample:
  "is_prime 3 \<and> is_prime 5 \<and> coprime (2::int) (3 * 5) \<and> coprime (4::int) (3 * 5)
   \<and> (4::int) = 2 ^ nat 2 mod (3 * 5) \<and> (0::int) \<le> 2 \<and> (2::int) < (3 - 1) * (5 - 1)
   \<and> (case ParamProof sha_one rnd_zero \<lparr>pk_N = 3 * 5, pk_PhiN = (3 - 1) * (5 - 1), pk_P = 3, pk_Q = 5\<rparr> 2 4 2 of
         Returns pf \<Rightarrow> ParamVerify sha_one pf (Some (3 * 5)) (Some 2) (Some 4)
       | Panics \<Rightarrow> Panics
       | Diverges \<Rightarrow> Diverges) = Returns False"
  by code_simp


section \<open>Nil components\<close>

text \<open>
  C4, as amended.  When \<open>N\<close>, \<open>s\<close> or \<open>t\<close> is nil, or some \<open>A[i]\<close> or \<open>Z[i]\<close> of a
  ParamProof is nil, \<^verbatim>\<open>ParamVerify\<close> returns false before any arithmetic, without
  panicking.  Its result is a bare boolean: no error value names the missing field or
  the index.
\<close>


theorem ParamVerify_nil_rejects:
  assumes "N = None \<or> s = None \<or> t = None
         \<or> (i < length (pp_A pf) \<and> pp_A pf ! i = None)
         \<or> (i < length (pp_Z pf) \<and> pp_Z pf ! i = None)"
  shows "ParamVerify sha pf N s t = Returns False"
proof -
  from assms have "AnyIsNil [N, s, t] \<or> AnyIsNil (pp_A pf) \<or> AnyIsNil (pp_Z pf)"
    unfolding AnyIsNil_def by (metis list.set_intros(1,2) nth_mem)
  then show ?thesis by (simp add: ParamVerify_def)
qed

theorem ParamVerify_nil_rejects_witness:
  "ParamVerify sha_one \<lparr>pp_A = (replicate 80 (Some 1))[42 := None], pp_Z = replicate 80 (Some 0)\<rparr>
     (Some 15) (Some 2) (Some 4) = Returns False"
  using ParamVerify_nil_rejects [of "Some 15" "Some 2" "Some 4" 42
      "\<lparr>pp_A = (replicate 80 (Some 1))[42 := None], pp_Z = replicate 80 (Some 0)\<rparr>" sha_one]
  by simp

text \<open>
  C4, as stated, fails.  A proof whose \<open>A[42]\<close> is nil (the case of the repository's
  test) and a complete proof whose first equality is wrong get the same result, the
  bare \<open>false\<close>; nothing in it identifies a missing field or an index.
\<close>


theorem ParamVerify_nil_bare_false:
  "ParamVerify sha_one \<lparr>pp_A = (replicate 80 (Some 1))[42 := None], pp_Z = replicate 80 (Some 1)\<rparr>
       (Some 15) (Some 2) (Some 4)
     = Returns False
   \<and> ParamVerify sha_one \<lparr>pp_A = replicate 80 (Some 1), pp_Z = replicate 80 (Some 1)\<rparr>
       (Some 15) (Some 2) (Some 4)
     = Returns False"
proof
  have "None \<in> set ((replicate 80 (Some (1::int)))[42 := None])"
    by (rule set_update_memI) simp
  then show "ParamVerify sha_one
      \<lparr>pp_A = (replicate 80 (Some 1))[42 := None], pp_Z = replicate 80 (Some 1)\<rparr>
      (Some 15) (Some 2) (Some 4) = Returns False"
    by (simp add: ParamVerify_def AnyIsNil_def)
next
  show "ParamVerify sha_one \<lparr>pp_A = replicate 80 (Some 1), pp_Z = replicate 80 (Some 1)\<rparr>
      (Some 15) (Some 2) (Some 4) = Returns False"
    by code_simp
qed

section \<open>Verification of the no-small-factor proof\<close>


lemma isqrt_correct: "isqrt n * isqrt n \<le> n \<and> n < (isqrt n + 1) * (isqrt n + 1)"
proof (induction n)
  case 0
  show ?case by simp
next
  case (Suc n)
  then show ?case by (auto simp: Let_def)
qed






text \<open>A digest that makes the challenge \<open>e = 0\<close>, and two evaluations used below.\<close>

definition h_mid :: "int \<Rightarrow> int list \<Rightarrow> int" where
  "h_mid bound ins = 2 ^ 256 - 1"




subsection \<open>The three congruences\<close>
























section \<open>Number theory: squares modulo a prime\<close>

text \<open>Euler's criterion: the power \<open>x\<^bsup>(p-1)/2\<^esup> mod p\<close>.\<close>

definition euler_power :: "int \<Rightarrow> int \<Rightarrow> int" where
  "euler_power x p = x ^ nat ((p - 1) div 2) mod p"

lemma is_square_mod_iff:
  assumes "0 < p"
  shows "is_square_mod x p \<longleftrightarrow> (\<exists>r. r * r mod p = x mod p)"
proof
  assume "is_square_mod x p"
  then show "\<exists>r. r * r mod p = x mod p" by (auto simp: is_square_mod_alt)
next
  assume "\<exists>r. r * r mod p = x mod p"
  then obtain r where r: "r * r mod p = x mod p" ..
  have "(r mod p) * (r mod p) mod p = x mod p" using r by (simp add: mod_mult_eq)
  moreover have "r mod p \<in> {0..<p}" using assms by simp
  ultimately show "is_square_mod x p" unfolding is_square_mod_alt by blast
qed

lemma is_square_mod_cong:
  "0 < p \<Longrightarrow> x mod p = y mod p \<Longrightarrow> is_square_mod x p = is_square_mod y p"
  by (simp add: is_square_mod_alt)

lemma is_square_mod_dvd: "0 < p \<Longrightarrow> p dvd x \<Longrightarrow> is_square_mod x p"
  unfolding is_square_mod_alt by (rule bexI [of _ 0]) (auto simp: mod_eq_0_iff_dvd)

lemma square_one_cases:
  assumes p: "is_prime p" and u: "u * u mod p = 1"
  shows "u mod p = 1 \<or> u mod p = p - 1"
proof -
  have p1: "1 < p" using p by (rule is_prime_gt1)
  from u p1 have "u * u mod p = 1 mod p" by simp
  then have "p dvd u * u - 1" by (simp add: mod_eq_dvd_iff)
  also have "u * u - 1 = (u - 1) * (u + 1)" by (simp add: algebra_simps)
  finally have "p dvd u - 1 \<or> p dvd u + 1" using is_prime_dvd_mult [OF p] by blast
  then show ?thesis
  proof
    assume "p dvd u - 1"
    then have "u mod p = 1 mod p" by (simp add: mod_eq_dvd_iff)
    then show ?thesis using p1 by simp
  next
    assume "p dvd u + 1"
    then have "p dvd (u + 1) - p" by (rule dvd_diff) simp
    moreover have "(u + 1) - p = u - (p - 1)" by simp
    ultimately have "p dvd u - (p - 1)" by simp
    then have "u mod p = (p - 1) mod p" by (simp only: mod_eq_dvd_iff)
    moreover have "(p - 1) mod p = p - 1" using p1 by (intro mod_pos_pos_trivial) auto
    ultimately have "u mod p = p - 1" by (rule trans)
    then show ?thesis ..
  qed
qed

lemma odd_prime_half:
  assumes "is_prime p" "odd p"
  shows "2 * nat ((p - 1) div 2) = nat (p - 1)"
proof -
  have "1 < p" using assms(1) by (rule is_prime_gt1)
  moreover have "2 * ((p - 1) div 2) = p - 1" using assms(2) by simp
  ultimately show ?thesis by linarith
qed

lemma euler_power_cases:
  assumes p: "is_prime p" and odd: "odd p" and x: "\<not> p dvd x"
  shows "euler_power x p = 1 \<or> euler_power x p = p - 1"
proof -
  let ?u = "x ^ nat ((p - 1) div 2)"
  have "?u * ?u = x ^ nat (p - 1)"
    using odd_prime_half [OF p odd] by (metis mult_2 power_add)
  then have "?u * ?u mod p = 1" using fermat_little [OF p x] by simp
  then show ?thesis unfolding euler_power_def by (rule square_one_cases [OF p])
qed

lemma euler_power_square:
  assumes p: "is_prime p" and odd: "odd p" and x: "\<not> p dvd x" and sq: "is_square_mod x p"
  shows "euler_power x p = 1"
proof -
  have p1: "1 < p" using p by (rule is_prime_gt1)
  from sq obtain r where r: "r * r mod p = x mod p" by (auto simp: is_square_mod_alt)
  have nr: "\<not> p dvd r"
  proof
    assume "p dvd r"
    then have "p dvd r * r" by simp
    then have "x mod p = 0" using r by (simp add: mod_eq_0_iff_dvd)
    with x show False by (simp add: mod_eq_0_iff_dvd)
  qed
  have "euler_power x p = (x mod p) ^ nat ((p - 1) div 2) mod p"
    by (simp add: euler_power_def power_mod)
  also have "\<dots> = (r * r) ^ nat ((p - 1) div 2) mod p"
    by (simp add: r [symmetric] power_mod)
  also have "(r * r) ^ nat ((p - 1) div 2) = r ^ nat (p - 1)"
    using odd_prime_half [OF p odd] by (metis power2_eq_square power_mult)
  also have "r ^ nat (p - 1) mod p = 1" using p nr by (rule fermat_little)
  finally show ?thesis .
qed

lemma euler_power_mult:
  "euler_power (x * y) p = euler_power x p * euler_power y p mod p"
  by (simp add: euler_power_def power_mult_distrib mod_mult_eq)

lemma blum_exponents:
  assumes "1 < p" "p mod 4 = 3"
  shows "2 * nat ((p + 1) div 4) = Suc (nat ((p - 1) div 2))" "odd (nat ((p - 1) div 2))"
proof -
  define k where "k = p div 4"
  have k: "p = 4 * k + 3" using assms(2) unfolding k_def by presburger
  with assms(1) have k0: "0 \<le> k" by linarith
  have a: "(p + 1) div 4 = k + 1" and b: "(p - 1) div 2 = 2 * k + 1" using k by simp_all
  show "2 * nat ((p + 1) div 4) = Suc (nat ((p - 1) div 2))" using k0 by (simp add: a b nat_add_distrib nat_mult_distrib)
  show "odd (nat ((p - 1) div 2))" using k0 by (simp add: b nat_add_distrib nat_mult_distrib even_nat_iff)
qed

lemma modSqrt3Mod4Prime_square:
  assumes p: "is_prime p" and blum: "p mod 4 = 3"
  shows "modSqrt3Mod4Prime x p * modSqrt3Mod4Prime x p mod p = x * euler_power x p mod p"
proof -
  have p1: "1 < p" using p by (rule is_prime_gt1)
  let ?r = "x ^ nat ((p + 1) div 4)"
  have "?r * ?r = x ^ (2 * nat ((p + 1) div 4))" by (metis mult_2 power_add)
  also have "\<dots> = x * x ^ nat ((p - 1) div 2)" by (simp add: blum_exponents(1) [OF p1 blum])
  finally have "?r * ?r mod p = x * x ^ nat ((p - 1) div 2) mod p" by simp
  moreover have "(?r mod p) * (?r mod p) mod p = ?r * ?r mod p" by (rule mod_mult_eq)
  moreover have "x * (x ^ nat ((p - 1) div 2) mod p) mod p = x * x ^ nat ((p - 1) div 2) mod p"
    by (rule mod_mult_right_eq)
  ultimately show ?thesis
    by (simp only: modSqrt3Mod4Prime_def euler_power_def)
qed

lemma blum_square_iff:
  assumes p: "is_prime p" and blum: "p mod 4 = 3" and x: "\<not> p dvd x"
  shows "is_square_mod x p \<longleftrightarrow> euler_power x p = 1"
proof
  have odd: "odd p" using blum by presburger
  show "euler_power x p = 1" if "is_square_mod x p"
    using p odd x that by (rule euler_power_square)
  show "is_square_mod x p" if e: "euler_power x p = 1"
  proof -
    have "modSqrt3Mod4Prime x p * modSqrt3Mod4Prime x p mod p = x mod p"
      using modSqrt3Mod4Prime_square [OF p blum, of x] e by simp
    then show ?thesis using is_prime_gt1 [OF p] by (subst is_square_mod_iff) auto
  qed
qed

lemma blum_euler_neg:
  assumes p: "is_prime p" and blum: "p mod 4 = 3"
  shows "euler_power (- x) p = (- euler_power x p) mod p"
proof -
  have p1: "1 < p" using p by (rule is_prime_gt1)
  have "(- x) ^ nat ((p - 1) div 2) = - (x ^ nat ((p - 1) div 2))"
    using blum_exponents(2) [OF p1 blum] by (simp add: power_minus_odd)
  then show ?thesis by (simp add: euler_power_def mod_minus_eq)
qed

lemma blum_neg_square:
  assumes p: "is_prime p" and blum: "p mod 4 = 3" and x: "\<not> p dvd x"
  shows "is_square_mod (- x) p \<longleftrightarrow> \<not> is_square_mod x p"
proof -
  have p1: "1 < p" using p by (rule is_prime_gt1)
  have odd: "odd p" using blum by presburger
  have p3: "3 \<le> p" using blum p1 by presburger
  have nx: "\<not> p dvd - x" using x by simp
  from euler_power_cases [OF p odd x] show ?thesis
  proof
    assume e: "euler_power x p = 1"
    then have "euler_power (- x) p = (- 1) mod p"
      using blum_euler_neg [OF p blum, of x] by simp
    also have "\<dots> = p - 1" using p1 by (simp add: zmod_minus1)
    finally have "euler_power (- x) p = p - 1" .
    with e p3 show ?thesis
      using blum_square_iff [OF p blum x] blum_square_iff [OF p blum nx] by simp
  next
    assume e: "euler_power x p = p - 1"
    then have "euler_power (- x) p = (1 - p) mod p"
      using blum_euler_neg [OF p blum, of x] by simp
    also have "\<dots> = (1 - p + p) mod p" by (simp only: mod_add_self2)
    also have "\<dots> = 1" using p1 by simp
    finally show ?thesis using e p3
      using blum_square_iff [OF p blum x] blum_square_iff [OF p blum nx] by simp
  qed
qed

lemma blum_mult_square:
  assumes p: "is_prime p" and blum: "p mod 4 = 3" and x: "\<not> p dvd x" and y: "\<not> p dvd y"
  shows "is_square_mod (x * y) p \<longleftrightarrow> (is_square_mod x p \<longleftrightarrow> is_square_mod y p)"
proof -
  have p1: "1 < p" using p by (rule is_prime_gt1)
  have odd: "odd p" using blum by presburger
  have p3: "3 \<le> p" using blum p1 by presburger
  have xy: "\<not> p dvd x * y" using x y is_prime_dvd_mult [OF p] by blast
  have m: "(p - 1) * (p - 1) mod p = 1"
  proof -
    have "(p - 1) * (p - 1) = 1 + p * (p - 2)" by (simp add: algebra_simps)
    then show ?thesis using p1 by simp
  qed
  have neg1: "(- 1) mod p = p - 1" using p1 by (simp add: zmod_minus1)
  note sq = blum_square_iff [OF p blum]
  from euler_power_cases [OF p odd x] euler_power_cases [OF p odd y]
  show ?thesis
    using p1 p3 m by (auto simp: sq [OF x] sq [OF y] sq [OF xy] euler_power_mult neg1)
qed

lemma blum_square_or_neg:
  assumes p: "is_prime p" and blum: "p mod 4 = 3"
  shows "is_square_mod x p \<or> is_square_mod (- x) p"
proof (cases "p dvd x")
  case True
  then show ?thesis using is_square_mod_dvd is_prime_gt1 [OF p] by simp
next
  case False
  then show ?thesis using blum_neg_square [OF p blum] by blast
qed

section \<open>Square roots modulo a prime and their combination\<close>

lemma Legendre_cases:
  "Legendre x p = - 1 \<and> \<not> p dvd x \<and> \<not> is_square_mod x p
   \<or> Legendre x p = 0 \<and> p dvd x
   \<or> Legendre x p = 1 \<and> \<not> p dvd x \<and> is_square_mod x p"
  by (simp add: Legendre_def)

lemma least_sqrt_root:
  assumes p: "0 < p" and sq: "is_square_mod x p"
  shows "0 \<le> least_sqrt x p \<and> least_sqrt x p < p
         \<and> least_sqrt x p * least_sqrt x p mod p = x mod p"
proof -
  from sq obtain r where r: "r \<in> {0..<p}" "r * r mod p = x mod p"
    by (auto simp: is_square_mod_alt)
  then have "r \<in> set (filter (\<lambda>r. r * r mod p = x mod p) [0..p - 1])" by simp
  then obtain r0 rs where f: "filter (\<lambda>r. r * r mod p = x mod p) [0..p - 1] = r0 # rs"
    by (cases "filter (\<lambda>r. r * r mod p = x mod p) [0..p - 1]") auto
  then have "r0 \<in> set (filter (\<lambda>r. r * r mod p = x mod p) [0..p - 1])" by simp
  then have "0 \<le> r0" "r0 < p" "r0 * r0 mod p = x mod p" by simp_all
  moreover have "least_sqrt x p = r0" by (simp add: least_sqrt_def f)
  ultimately show ?thesis by simp
qed

lemma ModSqrt_None_iff:
  assumes p: "is_prime p"
  shows "ModSqrt x p = None \<longleftrightarrow> \<not> is_square_mod x p"
  using Legendre_cases [of x p] is_square_mod_dvd [of p x] is_prime_gt1 [OF p]
  by (auto simp: ModSqrt_def Let_def)

lemma ModSqrt_Some:
  assumes p: "is_prime p" and odd: "odd p" and r: "ModSqrt x p = Some r"
  shows "0 \<le> r \<and> r < p \<and> r * r mod p = x mod p"
proof -
  have p1: "1 < p" using p by (rule is_prime_gt1)
  from Legendre_cases [of x p] r
  consider (zero) "Legendre x p = 0" "p dvd x"
    | (one) "Legendre x p = 1" "\<not> p dvd x" "is_square_mod x p"
    by (auto simp: ModSqrt_def Let_def)
  then show ?thesis
  proof cases
    case zero
    with r have "r = 0" by (simp add: ModSqrt_def)
    with zero p1 show ?thesis by (simp add: mod_eq_0_iff_dvd)
  next
    case one
    show ?thesis
    proof (cases "p mod 4 = 3")
      case True
      with r one have rr: "r = modSqrt3Mod4Prime (x mod p) p" by (simp add: ModSqrt_def)
      have nd: "\<not> p dvd x mod p" using one(2) by (simp add: dvd_mod_iff)
      have sq: "is_square_mod (x mod p) p"
        using one(3) p1 is_square_mod_cong [of p "x mod p" x] by simp
      have "euler_power (x mod p) p = 1"
        using blum_square_iff [OF p True nd] sq by simp
      then have "r * r mod p = x mod p"
        using modSqrt3Mod4Prime_square [OF p True, of "x mod p"] by (simp add: rr)
      moreover have "0 \<le> r" "r < p" using p1 by (simp_all add: rr modSqrt3Mod4Prime_def)
      ultimately show ?thesis by simp
    next
      case False
      with r one have rr: "r = least_sqrt (x mod p) p" by (simp add: ModSqrt_def)
      have sq: "is_square_mod (x mod p) p"
        using one(3) p1 is_square_mod_cong [of p "x mod p" x] by simp
      from least_sqrt_root [OF _ sq] p1 show ?thesis by (simp add: rr)
    qed
  qed
qed

lemma PrimeModSqrt_cases:
  assumes p: "is_prime p" and odd: "odd p"
  shows "\<not> is_square_mod x p \<and> PrimeModSqrt x p = []
       \<or> is_square_mod x p \<and> (\<exists>r. PrimeModSqrt x p = [r, (- r) mod p] \<and> r * r mod p = x mod p)"
proof (cases "ModSqrt x p")
  case None
  then have "\<not> is_square_mod x p" using ModSqrt_None_iff [OF p, of x] by simp
  with None show ?thesis by (simp add: PrimeModSqrt_def)
next
  case (Some r)
  have p1: "1 < p" using p by (rule is_prime_gt1)
  from Some have "is_square_mod x p" using ModSqrt_None_iff [OF p, of x] by simp
  moreover from ModSqrt_Some [OF p odd Some] have "r * r mod p = x mod p" by simp
  moreover have "PrimeModSqrt x p = [r, (- r) mod p]"
    using Some p1 by (simp add: PrimeModSqrt_def ModInt_Neg_def)
  ultimately show ?thesis by blast
qed

lemma PrimeModSqrt_roots:
  assumes p: "is_prime p" and odd: "odd p" and r: "r \<in> set (PrimeModSqrt x p)"
  shows "r * r mod p = x mod p"
proof -
  from PrimeModSqrt_cases [OF p odd, of x] r
  obtain r0 where r0: "PrimeModSqrt x p = [r0, (- r0) mod p]" "r0 * r0 mod p = x mod p"
    by auto
  have "((- r0) mod p) * ((- r0) mod p) mod p = (- r0) * (- r0) mod p" by (rule mod_mult_eq)
  then have "((- r0) mod p) * ((- r0) mod p) mod p = x mod p" using r0(2) by simp
  with r r0 show ?thesis by auto
qed

text \<open>The value that the Chinese remainder theorem assigns to a pair of residues.\<close>

definition crt_pair :: "int \<Rightarrow> int \<Rightarrow> int \<Rightarrow> int \<Rightarrow> int \<Rightarrow> int \<Rightarrow> int \<Rightarrow> int" where
  "crt_pair n a b p q rp rq =
     ModInt_Add n (ModInt_Mul n (ModInt_Mul n b q) rp) (ModInt_Mul n (ModInt_Mul n a p) rq)"

lemma CompModSqrt_eq:
  "egcd p q = (g, a, b) \<Longrightarrow>
   CompModSqrt x p q n =
     concat (map (\<lambda>rp. map (\<lambda>rq. crt_pair n a b p q rp rq) (PrimeModSqrt x q)) (PrimeModSqrt x p))"
  by (simp add: CompModSqrt_def crt_pair_def Let_def)

lemma crt_pair_eq:
  assumes "0 < n"
  shows "crt_pair n a b p q rp rq = (b * q * rp + a * p * rq) mod n"
  using assms
  by (simp add: crt_pair_def ModInt_Add_def ModInt_Mul_def mod_add_eq mod_mult_left_eq)

lemma crt_pair_residues:
  assumes p: "1 < p" and q: "1 < q" and bez: "a * p + b * q = 1"
  shows "crt_pair (p * q) a b p q rp rq mod p = rp mod p"
    and "crt_pair (p * q) a b p q rp rq mod q = rq mod q"
proof -
  have n: "0 < p * q" using p q by simp
  have "crt_pair (p * q) a b p q rp rq mod p = (b * q * rp + a * p * rq) mod p"
    by (simp add: crt_pair_eq [OF n] mod_mod_cancel)
  also have "b * q * rp + a * p * rq = rp + p * (a * rq - a * rp)"
  proof -
    have "b * q * rp + a * p * rq = (a * p + b * q) * rp + p * (a * rq - a * rp)"
      by (simp add: algebra_simps)
    then show ?thesis by (simp only: bez mult_1)
  qed
  also have "(rp + p * (a * rq - a * rp)) mod p = rp mod p" by simp
  finally show "crt_pair (p * q) a b p q rp rq mod p = rp mod p" .
  have "crt_pair (p * q) a b p q rp rq mod q = (b * q * rp + a * p * rq) mod q"
    by (simp add: crt_pair_eq [OF n] mod_mod_cancel)
  also have "b * q * rp + a * p * rq = rq + q * (b * rp - b * rq)"
  proof -
    have "b * q * rp + a * p * rq = (a * p + b * q) * rq + q * (b * rp - b * rq)"
      by (simp add: algebra_simps)
    then show ?thesis by (simp only: bez mult_1)
  qed
  also have "(rq + q * (b * rp - b * rq)) mod q = rq mod q" by simp
  finally show "crt_pair (p * q) a b p q rp rq mod q = rq mod q" .
qed

text \<open>
  The combination does not depend on which B\'ezout coefficients \<^verbatim>\<open>GCD\<close> returns.
\<close>

lemma crt_pair_bezout_independent:
  assumes p: "is_prime p" and q: "is_prime q" and pq: "p \<noteq> q"
      and bez: "a * p + b * q = 1" and bez': "a' * p + b' * q = 1"
  shows "crt_pair (p * q) a' b' p q rp rq = crt_pair (p * q) a b p q rp rq"
proof -
  have p1: "1 < p" and q1: "1 < q" using p q by (auto dest: is_prime_gt1)
  have n: "0 < p * q" using p1 q1 by simp
  let ?u = "crt_pair (p * q) a' b' p q rp rq" and ?v = "crt_pair (p * q) a b p q rp rq"
  have "?u mod p = ?v mod p" "?u mod q = ?v mod q"
    using crt_pair_residues [OF p1 q1 bez] crt_pair_residues [OF p1 q1 bez'] by simp_all
  with distinct_primes_coprime [OF p q pq] have "?u mod (p * q) = ?v mod (p * q)"
    by (rule crt_unique)
  moreover have "?u mod (p * q) = ?u" "?v mod (p * q) = ?v"
    using n by (simp_all add: crt_pair_eq)
  ultimately show ?thesis by simp
qed

lemma egcd_primes:
  assumes p: "is_prime p" and q: "is_prime q" and pq: "p \<noteq> q"
  obtains a b where "egcd p q = (1, a, b)" "a * p + b * q = 1"
proof -
  obtain g a b where r: "egcd p q = (g, a, b)" by (metis prod_cases3)
  have "0 \<le> p" "0 \<le> q" using is_prime_gt1 [OF p] is_prime_gt1 [OF q] by simp_all
  from egcd_correct [OF this r] have "g = gcd p q" "p * a + q * b = g" by simp_all
  moreover have "gcd p q = 1"
    using distinct_primes_coprime [OF p q pq] by (simp add: coprime_iff_gcd_eq_1)
  ultimately have "egcd p q = (1, a, b)" "a * p + b * q = 1" using r by (simp_all add: mult.commute)
  then show ?thesis by (rule that)
qed

lemma length_concat_map_map:
  "length (concat (map (\<lambda>u. map (f u) vs) us)) = length us * length vs"
  by (induction us) simp_all

lemma CompModSqrt_members:
  assumes p: "is_prime p" and q: "is_prime q" and pq: "p \<noteq> q"
      and oddp: "odd p" and oddq: "odd q"
      and r: "r \<in> set (CompModSqrt x p q (p * q))"
  obtains a b rp rq where "a * p + b * q = 1"
    "rp \<in> set (PrimeModSqrt x p)" "rq \<in> set (PrimeModSqrt x q)"
    "r = crt_pair (p * q) a b p q rp rq"
    "r mod p = rp mod p" "r mod q = rq mod q"
proof -
  obtain a b where e: "egcd p q = (1, a, b)" and bez: "a * p + b * q = 1"
    using egcd_primes [OF p q pq] by blast
  from r obtain rp rq where m: "rp \<in> set (PrimeModSqrt x p)" "rq \<in> set (PrimeModSqrt x q)"
    "r = crt_pair (p * q) a b p q rp rq"
    unfolding CompModSqrt_eq [OF e] by auto
  have "r mod p = rp mod p" "r mod q = rq mod q"
    unfolding m(3)
    using crt_pair_residues [OF is_prime_gt1 [OF p] is_prime_gt1 [OF q] bez] by simp_all
  with bez m show ?thesis by (rule that)
qed

lemma CompModSqrt_intro:
  assumes p: "is_prime p" and q: "is_prime q" and pq: "p \<noteq> q"
      and rp: "rp \<in> set (PrimeModSqrt x p)" and rq: "rq \<in> set (PrimeModSqrt x q)"
  obtains r where "r \<in> set (CompModSqrt x p q (p * q))" "r mod p = rp mod p" "r mod q = rq mod q"
proof -
  obtain a b where e: "egcd p q = (1, a, b)" and bez: "a * p + b * q = 1"
    using egcd_primes [OF p q pq] by blast
  have "crt_pair (p * q) a b p q rp rq \<in> set (CompModSqrt x p q (p * q))"
    unfolding CompModSqrt_eq [OF e] using rp rq by auto
  then show ?thesis
    using crt_pair_residues [OF is_prime_gt1 [OF p] is_prime_gt1 [OF q] bez] by (rule that)
qed

lemma CompModSqrt_length:
  assumes p: "is_prime p" and q: "is_prime q" and oddp: "odd p" and oddq: "odd q"
  shows "length (CompModSqrt x p q n) =
     (if is_square_mod x p \<and> is_square_mod x q then 4 else 0)"
proof -
  obtain g a b where e: "egcd p q = (g, a, b)" by (metis prod_cases3)
  have "length (CompModSqrt x p q n) = length (PrimeModSqrt x p) * length (PrimeModSqrt x q)"
    unfolding CompModSqrt_eq [OF e] by (rule length_concat_map_map)
  moreover have "length (PrimeModSqrt x p) = (if is_square_mod x p then 2 else 0)"
    using PrimeModSqrt_cases [OF p oddp, of x] by auto
  moreover have "length (PrimeModSqrt x q) = (if is_square_mod x q then 2 else 0)"
    using PrimeModSqrt_cases [OF q oddq, of x] by auto
  ultimately show ?thesis by simp
qed

lemma CompModSqrt_squares:
  assumes p: "is_prime p" and q: "is_prime q" and pq: "p \<noteq> q"
      and oddp: "odd p" and oddq: "odd q"
      and r: "r \<in> set (CompModSqrt x p q (p * q))"
  shows "r * r mod (p * q) = x mod (p * q)"
proof -
  from CompModSqrt_members [OF p q pq oddp oddq r]
  obtain a b rp rq where m: "rp \<in> set (PrimeModSqrt x p)" "rq \<in> set (PrimeModSqrt x q)"
    "r mod p = rp mod p" "r mod q = rq mod q" by metis
  have "r * r mod p = rp * rp mod p" using m(3) by (metis mod_mult_eq)
  then have mp: "r * r mod p = x mod p" using PrimeModSqrt_roots [OF p oddp m(1)] by simp
  have "r * r mod q = rq * rq mod q" using m(4) by (metis mod_mult_eq)
  then have mq: "r * r mod q = x mod q" using PrimeModSqrt_roots [OF q oddq m(2)] by simp
  from distinct_primes_coprime [OF p q pq] mp mq show ?thesis by (rule crt_unique)
qed

text \<open>
  C6.  For distinct odd primes \<open>p\<close>, \<open>q\<close> and \<open>n = p \<cdot> q\<close>, every entry \<open>r\<close> of
  \<^verbatim>\<open>CompModSqrt(x, p, q, n)\<close> is a square root of \<open>x\<close> modulo \<open>n\<close> and is
  \<open>b \<cdot> q \<cdot> rp + a \<cdot> p \<cdot> rq mod n\<close> for roots \<open>rp\<close>, \<open>rq\<close> of \<open>x\<close> modulo \<open>p\<close> and
  \<open>q\<close> from \<^verbatim>\<open>PrimeModSqrt\<close> and coefficients with \<open>a \<cdot> p + b \<cdot> q = 1\<close>; the list is
  empty exactly when \<open>x\<close> is not a square modulo \<open>p\<close> or modulo \<open>q\<close>; and its length
  is 0, 2 or 4.  (By \<open>CompModSqrt_length\<close> the length is in fact 0 or 4: a root 0
  modulo a prime is listed twice.)
\<close>

theorem CompModSqrt_correct:
  assumes p: "is_prime p" and q: "is_prime q" and pq: "p \<noteq> q"
      and oddp: "odd p" and oddq: "odd q" and n: "n = p * q"
  shows "(\<forall>r\<in>set (CompModSqrt x p q n).
            r * r mod n = x mod n
          \<and> (\<exists>a b rp rq. a * p + b * q = 1
                \<and> rp \<in> set (PrimeModSqrt x p) \<and> rp * rp mod p = x mod p
                \<and> rq \<in> set (PrimeModSqrt x q) \<and> rq * rq mod q = x mod q
                \<and> r = (b * q * rp + a * p * rq) mod n))
       \<and> (CompModSqrt x p q n = [] \<longleftrightarrow> \<not> is_square_mod x p \<or> \<not> is_square_mod x q)
       \<and> length (CompModSqrt x p q n) \<in> {0, 2, 4}"
proof (intro conjI ballI)
  fix r assume r: "r \<in> set (CompModSqrt x p q n)"
  then have r': "r \<in> set (CompModSqrt x p q (p * q))" by (simp add: n)
  show "r * r mod n = x mod n"
    unfolding n using p q pq oddp oddq r' by (rule CompModSqrt_squares)
  have npos: "0 < p * q" using is_prime_gt1 [OF p] is_prime_gt1 [OF q] by simp
  from CompModSqrt_members [OF p q pq oddp oddq r']
  obtain a b rp rq where m: "a * p + b * q = 1"
    "rp \<in> set (PrimeModSqrt x p)" "rq \<in> set (PrimeModSqrt x q)"
    "r = crt_pair (p * q) a b p q rp rq" by metis
  have "rp * rp mod p = x mod p" using p oddp m(2) by (rule PrimeModSqrt_roots)
  moreover have "rq * rq mod q = x mod q" using q oddq m(3) by (rule PrimeModSqrt_roots)
  moreover have "r = (b * q * rp + a * p * rq) mod n"
    unfolding n m(4) using npos by (rule crt_pair_eq)
  ultimately show "\<exists>a b rp rq. a * p + b * q = 1
      \<and> rp \<in> set (PrimeModSqrt x p) \<and> rp * rp mod p = x mod p
      \<and> rq \<in> set (PrimeModSqrt x q) \<and> rq * rq mod q = x mod q
      \<and> r = (b * q * rp + a * p * rq) mod n"
    using m(1-3) by blast
next
  have "CompModSqrt x p q n = [] \<longleftrightarrow> length (CompModSqrt x p q n) = 0" by simp
  also have "\<dots> \<longleftrightarrow> \<not> is_square_mod x p \<or> \<not> is_square_mod x q"
    by (simp add: CompModSqrt_length [OF p q oddp oddq])
  finally show "CompModSqrt x p q n = [] \<longleftrightarrow> \<not> is_square_mod x p \<or> \<not> is_square_mod x q" .
next
  show "length (CompModSqrt x p q n) \<in> {0, 2, 4}"
    by (simp add: CompModSqrt_length [OF p q oddp oddq])
qed

lemma is_prime_11: "is_prime 11" by code_simp

theorem CompModSqrt_correct_witness:
  "CompModSqrt 58 7 11 77 \<noteq> [] \<and> length (CompModSqrt 58 7 11 77) \<in> {0, 2, 4}
   \<and> CompModSqrt 59 7 11 77 = []"
proof -
  have sq: "is_square_mod 58 7" "is_square_mod 58 11" "\<not> is_square_mod 59 7"
    by code_simp+
  have h: "(7::int) \<noteq> 11" "odd (7::int)" "odd (11::int)" "(77::int) = 7 * 11" by simp_all
  from CompModSqrt_correct [OF is_prime_7 is_prime_11 h, of 58]
  have a: "CompModSqrt 58 7 11 77 \<noteq> []" "length (CompModSqrt 58 7 11 77) \<in> {0, 2, 4}"
    using sq by auto
  from CompModSqrt_correct [OF is_prime_7 is_prime_11 h, of 59]
  have "CompModSqrt 59 7 11 77 = []" using sq by simp
  with a show ?thesis by simp
qed

section \<open>Quartic roots modulo a Blum integer\<close>

lemma PrimeModSqrt_blum_square_member:
  assumes p: "is_prime p" and blum: "p mod 4 = 3" and sq: "is_square_mod x p"
  obtains rp where "rp \<in> set (PrimeModSqrt x p)" "is_square_mod rp p"
proof -
  have p1: "0 < p" using is_prime_gt1 [OF p] by simp
  have odd: "odd p" using blum by presburger
  from PrimeModSqrt_cases [OF p odd, of x] sq
  obtain r where r: "PrimeModSqrt x p = [r, (- r) mod p]" by auto
  from blum_square_or_neg [OF p blum, of r] show ?thesis
  proof
    assume "is_square_mod r p"
    then show ?thesis using r that [of r] by simp
  next
    assume "is_square_mod (- r) p"
    then have "is_square_mod ((- r) mod p) p"
      using is_square_mod_cong [OF p1, of "(- r) mod p" "- r"] by simp
    then show ?thesis using r that [of "(- r) mod p"] by simp
  qed
qed

lemma CompMod4thRt_nonempty:
  assumes p: "is_prime p" and q: "is_prime q" and pq: "p \<noteq> q"
      and bp: "p mod 4 = 3" and bq: "q mod 4 = 3"
      and sp: "is_square_mod x p" and sq: "is_square_mod x q"
  shows "CompMod4thRt x p q (p * q) \<noteq> []"
proof -
  have p1: "0 < p" and q1: "0 < q" using is_prime_gt1 [OF p] is_prime_gt1 [OF q] by simp_all
  have oddp: "odd p" and oddq: "odd q" using bp bq by presburger+
  obtain rp where rp: "rp \<in> set (PrimeModSqrt x p)" "is_square_mod rp p"
    using PrimeModSqrt_blum_square_member [OF p bp sp] by blast
  obtain rq where rq: "rq \<in> set (PrimeModSqrt x q)" "is_square_mod rq q"
    using PrimeModSqrt_blum_square_member [OF q bq sq] by blast
  obtain sr where sr: "sr \<in> set (CompModSqrt x p q (p * q))"
    "sr mod p = rp mod p" "sr mod q = rq mod q"
    using CompModSqrt_intro [OF p q pq rp(1) rq(1)] by blast
  have "is_square_mod sr p" using is_square_mod_cong [OF p1 sr(2)] rp(2) by simp
  moreover have "is_square_mod sr q" using is_square_mod_cong [OF q1 sr(3)] rq(2) by simp
  ultimately have "length (CompModSqrt sr p q (p * q)) = 4"
    by (simp add: CompModSqrt_length [OF p q oddp oddq])
  then have "CompModSqrt sr p q (p * q) \<noteq> []" by auto
  with sr(1) show ?thesis by (auto simp: CompMod4thRt_def)
qed

lemma CompMod4thRt_roots:
  assumes p: "is_prime p" and q: "is_prime q" and pq: "p \<noteq> q"
      and oddp: "odd p" and oddq: "odd q"
      and r: "r \<in> set (CompMod4thRt x p q (p * q))"
  shows "r ^ 4 mod (p * q) = x mod (p * q)"
proof -
  from r obtain sr where sr: "sr \<in> set (CompModSqrt x p q (p * q))"
    "r \<in> set (CompModSqrt sr p q (p * q))"
    by (auto simp: CompMod4thRt_def)
  have a: "r * r mod (p * q) = sr mod (p * q)"
    using p q pq oddp oddq sr(2) by (rule CompModSqrt_squares)
  have b: "sr * sr mod (p * q) = x mod (p * q)"
    using p q pq oddp oddq sr(1) by (rule CompModSqrt_squares)
  have "r ^ 4 = (r * r) * (r * r)" by (simp add: power4_eq_xxxx)
  then have "r ^ 4 mod (p * q) = (r * r mod (p * q)) * (r * r mod (p * q)) mod (p * q)"
    by (simp only: mod_mult_eq)
  also have "\<dots> = sr * sr mod (p * q)" by (simp only: a mod_mult_eq)
  finally show ?thesis using b by simp
qed

section \<open>The Jacobi symbol of a product of two primes\<close>

lemma least_factor_bounds:
  assumes "1 < n"
  shows "2 \<le> least_factor n" "least_factor n \<le> n" "least_factor n dvd n"
    "\<And>e. 2 \<le> e \<Longrightarrow> e < least_factor n \<Longrightarrow> \<not> e dvd n"
  using least_factor_from_least [of 2 n] assms by (simp_all add: least_factor_def)

lemma least_factor_prime:
  assumes p: "is_prime p"
  shows "least_factor p = p"
proof -
  have p1: "1 < p" using p by (rule is_prime_gt1)
  from least_factor_bounds(1,3) [OF p1] is_prime_divisor [OF p, of "least_factor p"]
  show ?thesis by auto
qed

lemma least_factor_pq:
  assumes p: "is_prime p" and q: "is_prime q" and le: "p \<le> q"
  shows "least_factor (p * q) = p"
proof -
  have p1: "1 < p" and q1: "1 < q" using p q by (auto dest: is_prime_gt1)
  have n: "1 < p * q" using p1 q1 by (simp add: less_1_mult)
  let ?m = "least_factor (p * q)"
  note b = least_factor_bounds [OF n]
  have "\<not> p < ?m" using b(4) [of p] p1 by auto
  moreover have "p \<le> ?m"
  proof (cases "p dvd ?m")
    case True
    then show ?thesis using b(1) by (intro zdvd_imp_le) auto
  next
    case False
    with p have "coprime p ?m" by (rule is_prime_coprime)
    then have "coprime ?m p" by (simp add: coprime_commute)
    with b(3) have "?m dvd q" by (simp add: coprime_dvd_mult_right_iff)
    with q have "?m = 1 \<or> ?m = q" using b(1) by (intro is_prime_divisor) auto
    with b(1) le show ?thesis by auto
  qed
  ultimately show ?thesis by simp
qed

lemma Jacobi_one: "Jacobi x 1 = 1"
  by (simp add: Jacobi.simps)

lemma Jacobi_prime:
  assumes p: "is_prime p"
  shows "Jacobi x p = Legendre x p"
proof -
  have p1: "1 < p" using p by (rule is_prime_gt1)
  then have "Jacobi x p = Legendre x (least_factor p) * Jacobi x (p div least_factor p)"
    by (subst Jacobi.simps) simp
  then show ?thesis using p1 by (simp add: least_factor_prime [OF p] Jacobi_one)
qed

lemma Jacobi_pq_ordered:
  assumes p: "is_prime p" and q: "is_prime q" and le: "p \<le> q"
  shows "Jacobi x (p * q) = Legendre x p * Legendre x q"
proof -
  have p1: "1 < p" and q1: "1 < q" using p q by (auto dest: is_prime_gt1)
  have n: "1 < p * q" using p1 q1 by (simp add: less_1_mult)
  then have "Jacobi x (p * q)
      = Legendre x (least_factor (p * q)) * Jacobi x (p * q div least_factor (p * q))"
    by (subst Jacobi.simps) simp
  then show ?thesis using p1 by (simp add: least_factor_pq [OF p q le] Jacobi_prime [OF q])
qed

lemma Jacobi_pq:
  assumes p: "is_prime p" and q: "is_prime q"
  shows "Jacobi x (p * q) = Legendre x p * Legendre x q"
proof (cases "p \<le> q")
  case True
  with p q show ?thesis by (rule Jacobi_pq_ordered)
next
  case False
  then have "q \<le> p" by simp
  with q p have "Jacobi x (q * p) = Legendre x q * Legendre x p" by (rule Jacobi_pq_ordered)
  then show ?thesis by (simp add: mult.commute)
qed

lemma Jacobi_minus_one:
  assumes p: "is_prime p" and q: "is_prime q" and j: "Jacobi w (p * q) = - 1"
  shows "\<not> p dvd w" "\<not> q dvd w" "is_square_mod w p \<longleftrightarrow> \<not> is_square_mod w q"
proof -
  from j have l: "Legendre w p * Legendre w q = - 1" by (simp add: Jacobi_pq [OF p q])
  show "\<not> p dvd w" using l by (auto simp: Legendre_def)
  show "\<not> q dvd w" using l by (auto simp: Legendre_def)
  show "is_square_mod w p \<longleftrightarrow> \<not> is_square_mod w q"
    using l by (auto simp: Legendre_def split: if_splits)
qed

section \<open>The search of DefineXi\<close>

lemma yy_square_cong:
  assumes p: "0 < p" and N: "0 < N" and d: "p dvd N"
  shows "is_square_mod (yy w y N a b) p
     = is_square_mod ((if a then - 1 else 1) * (if b then y * w else y)) p"
proof -
  have "yy w y N a b = ((if a then - 1 else 1) * (if b then y * w else y)) mod N"
    using N by (simp add: yy_def Let_def)
  then have "yy w y N a b mod p = ((if a then - 1 else 1) * (if b then y * w else y)) mod p"
    using d by (simp add: mod_mod_cancel)
  with p show ?thesis by (rule is_square_mod_cong)
qed

lemma blum_twist_square:
  assumes p: "is_prime p" and blum: "p mod 4 = 3" and w: "\<not> p dvd w"
  shows "is_square_mod ((if a then - 1 else 1) * (if b then y * w else y)) p
     \<longleftrightarrow> p dvd y
         \<or> ((if b then (is_square_mod y p \<longleftrightarrow> is_square_mod w p) else is_square_mod y p) \<noteq> a)"
proof (cases "p dvd y")
  case True
  then have "p dvd (if a then - 1 else 1) * (if b then y * w else y)" by simp
  then show ?thesis using True is_square_mod_dvd is_prime_gt1 [OF p] by simp
next
  case False
  have yw: "\<not> p dvd y * w" using False w is_prime_dvd_mult [OF p] by blast
  show ?thesis
    using False blum_mult_square [OF p blum False w] blum_neg_square [OF p blum False]
      blum_neg_square [OF p blum yw]
    by (cases a; cases b) simp_all
qed

lemma twist_exists:
  assumes tw: "tp \<noteq> tq"
  shows "\<exists>a b. (dp \<or> ((if b then (sp \<longleftrightarrow> tp) else sp) \<noteq> a))
             \<and> (dq \<or> ((if b then (sq \<longleftrightarrow> tq) else sq) \<noteq> a))"
proof (cases "sp = sq")
  case True
  then show ?thesis by (intro exI [of _ "\<not> sp"] exI [of _ False]) simp
next
  case False
  show ?thesis
  proof (cases "(sp \<longleftrightarrow> tp) = (sq \<longleftrightarrow> tq)")
    case True
    then show ?thesis by (intro exI [of _ "\<not> (sp \<longleftrightarrow> tp)"] exI [of _ True]) simp
  next
    case f: False
    with False tw show ?thesis by auto
  qed
qed

lemma DefineXi_search_finds:
  assumes "(a0, b0) \<in> set cands" "CompMod4thRt (yy w y N a0 b0) p q N \<noteq> []"
  shows "\<exists>a b x. DefineXi_search w y p q N cands = Some (a, b, x)
            \<and> x \<in> set (CompMod4thRt (yy w y N a b) p q N)"
  using assms
proof (induction cands)
  case Nil
  then show ?case by simp
next
  case (Cons c cands)
  obtain a b where c: "c = (a, b)" by (cases c)
  show ?case
  proof (cases "CompMod4thRt (yy w y N a b) p q N")
    case Nil
    with Cons.prems c have "(a0, b0) \<in> set cands" by auto
    with Cons.IH Cons.prems(2) Nil c show ?thesis by simp
  next
    case (Cons x xs)
    then show ?thesis using c by auto
  qed
qed

lemma DefineXi_succeeds:
  assumes p: "is_prime p" and q: "is_prime q" and pq: "p \<noteq> q"
      and bp: "p mod 4 = 3" and bq: "q mod 4 = 3" and N: "N = p * q"
      and j: "Jacobi w N = - 1"
  shows "(\<exists>a b. CompMod4thRt (yy w y_i N a b) p q N \<noteq> [])
       \<and> (\<exists>a b x. DefineXi w y_i p q N = Some (a, b, x) \<and> x ^ 4 mod N = yy w y_i N a b)"
proof -
  have p1: "0 < p" and q1: "0 < q" using is_prime_gt1 [OF p] is_prime_gt1 [OF q] by simp_all
  have Npos: "0 < N" using p1 q1 by (simp add: N)
  have oddp: "odd p" and oddq: "odd q" using bp bq by presburger+
  from j have w: "\<not> p dvd w" "\<not> q dvd w" "is_square_mod w p \<noteq> is_square_mod w q"
    using Jacobi_minus_one [OF p q, of w] by (simp_all add: N)
  let ?v = "\<lambda>a b. (if a then - 1 else 1) * (if b then y_i * w else y_i)"
  from twist_exists [OF w(3)] obtain a b where
    ab: "p dvd y_i \<or> ((if b then (is_square_mod y_i p \<longleftrightarrow> is_square_mod w p)
            else is_square_mod y_i p) \<noteq> a)"
        "q dvd y_i \<or> ((if b then (is_square_mod y_i q \<longleftrightarrow> is_square_mod w q)
            else is_square_mod y_i q) \<noteq> a)"
    by blast
  have "is_square_mod (yy w y_i N a b) p"
    using ab(1) blum_twist_square [OF p bp w(1), of a b y_i] yy_square_cong [OF p1 Npos, of w y_i a b]
    by (simp add: N)
  moreover have "is_square_mod (yy w y_i N a b) q"
    using ab(2) blum_twist_square [OF q bq w(2), of a b y_i] yy_square_cong [OF q1 Npos, of w y_i a b]
    by (simp add: N)
  ultimately have ne: "CompMod4thRt (yy w y_i N a b) p q N \<noteq> []"
    unfolding N using p q pq bp bq by (intro CompMod4thRt_nonempty)
  have "(a, b) \<in> set [(False, False), (False, True), (True, False), (True, True)]"
    by (cases a; cases b) simp_all
  from DefineXi_search_finds [OF this ne]
  obtain a' b' x where x: "DefineXi w y_i p q N = Some (a', b', x)"
    "x \<in> set (CompMod4thRt (yy w y_i N a' b') p q N)"
    unfolding DefineXi_def by blast
  have "x ^ 4 mod N = yy w y_i N a' b' mod N"
    using CompMod4thRt_roots [OF p q pq oddp oddq, of x "yy w y_i N a' b'"] x(2) by (simp add: N)
  also have "\<dots> = yy w y_i N a' b'" using Npos by (simp add: yy_def Let_def)
  finally show ?thesis using ne x(1) by blast
qed

text \<open>
  C5.  For \<open>N = p \<cdot> q\<close> with distinct primes \<open>p\<close>, \<open>q\<close> congruent to 3 modulo 4 and
  \<open>w\<close> of Jacobi symbol -1 over \<open>N\<close>, and for every \<open>y\<^sub>i\<close> (in particular those in
  \<open>[0, N)\<close>), one of the four values \<open>(-1)\<^sup>a w\<^sup>b y\<^sub>i mod N\<close> has a quartic root in
  \<^verbatim>\<open>CompMod4thRt\<close>; so \<^verbatim>\<open>DefineXi\<close> returns a triple \<open>(a, b, x)\<close> with
  \<open>x\<^sup>4 mod N\<close> equal to that value, and never reaches its panic.
\<close>

theorem DefineXi_finds_root:
  assumes "is_prime p" and "is_prime q" and "p \<noteq> q"
      and "p mod 4 = 3" and "q mod 4 = 3" and "N = p * q"
      and "Jacobi w N = - 1"
  shows "(\<exists>a b. CompMod4thRt (yy w y_i N a b) p q N \<noteq> [])
       \<and> (\<exists>a b x. DefineXi w y_i p q N = Some (a, b, x) \<and> x ^ 4 mod N = yy w y_i N a b)"
  using assms by (rule DefineXi_succeeds)

theorem DefineXi_finds_root_witness:
  "\<exists>a b x. DefineXi 2 5 3 7 21 = Some (a, b, x) \<and> x ^ 4 mod 21 = yy 2 5 21 a b"
proof -
  have "Jacobi 2 21 = - 1" by code_simp
  then show ?thesis
    using DefineXi_finds_root [OF is_prime_3 is_prime_7, of 21 2 5] by simp
qed

section \<open>The sampling loop and the N-th root\<close>

lemma sample_w_finds:
  assumes N: "0 < N"
  shows "Jacobi (rnd (k + n) mod N) N = - 1 \<Longrightarrow>
     \<exists>w. sample_w rnd N k = Some w \<and> Jacobi w N = - 1"
proof (induction n arbitrary: k)
  case 0
  then show ?case using N by (subst sample_w.simps) (simp add: GetRandomPositiveInt_def)
next
  case (Suc n)
  show ?case
  proof (cases "Jacobi (rnd k mod N) N = - 1")
    case True
    then show ?thesis using N by (subst sample_w.simps) (simp add: GetRandomPositiveInt_def)
  next
    case False
    from Suc.prems have "Jacobi (rnd (Suc k + n) mod N) N = - 1" by simp
    from Suc.IH [OF this] obtain w where "sample_w rnd N (Suc k) = Some w" "Jacobi w N = - 1"
      by blast
    then show ?thesis using N False
      by (subst sample_w.simps) (simp add: GetRandomPositiveInt_def)
  qed
qed

lemma sample_w_sound:
  assumes "sample_w rnd N k = Some w"
  shows "Jacobi w N = - 1"
  using assms
proof (induction rule: sample_w.raw_induct [rotated, consumes 1])
  case (1 sample_w rnd N k w)
  then show ?case
    by (auto simp: GetRandomPositiveInt_def split: option.splits if_splits)
qed


lemma those_map_the:
  assumes "\<And>x. x \<in> set xs \<Longrightarrow> f x \<noteq> None"
  shows "those (map f xs) = Some (map (\<lambda>x. the (f x)) xs)"
  using assms by (intro those_map_Some) auto

lemma inverse_exponent:
  assumes p: "is_prime p" and q: "is_prime q" and pq: "p \<noteq> q"
      and d: "0 \<le> d" and inv: "(p * q * d) mod ((p - 1) * (q - 1)) = 1 mod ((p - 1) * (q - 1))"
  shows "u ^ (nat (p * q) * nat d) mod (p * q) = u mod (p * q)"
proof -
  let ?phi = "(p - 1) * (q - 1)"
  have p1: "1 < p" and q1: "1 < q" using p q by (auto dest: is_prime_gt1)
  have phi: "0 < ?phi" using p1 q1 by simp
  have N: "0 < p * q" using p1 q1 by simp
  define k where "k = nat ((p * q * d - 1) div ?phi)"
  from inv have "?phi dvd p * q * d - 1" by (simp add: mod_eq_dvd_iff)
  then have e: "p * q * d - 1 = ?phi * ((p * q * d - 1) div ?phi)" by simp
  have d1: "0 < d"
  proof (rule ccontr)
    assume "\<not> 0 < d"
    with d have "d = 0" by simp
    with \<open>?phi dvd p * q * d - 1\<close> have "?phi dvd 1" by simp
    then have "?phi = 1" using phi by simp
    moreover have "1 * 2 \<le> ?phi"
    proof (cases "p < q")
      case True
      then show ?thesis using p1 by (intro mult_mono) auto
    next
      case False
      with pq have "q < p" by simp
      then have "2 * 1 \<le> ?phi" using q1 by (intro mult_mono) auto
      then show ?thesis by simp
    qed
    ultimately show False by simp
  qed
  then have "0 \<le> p * q * d - 1" using N by (smt (verit) mult_pos_pos)
  then have "0 \<le> (p * q * d - 1) div ?phi" using phi by (simp add: pos_imp_zdiv_nonneg_iff)
  then have "int k = (p * q * d - 1) div ?phi" by (simp add: k_def)
  with e have "p * q * d = 1 + int k * ?phi" by (simp add: mult.commute)
  then have "int (nat (p * q) * nat d) = int (1 + k * nat ?phi)"
    using N d phi by simp
  then have "nat (p * q) * nat d = 1 + k * nat ?phi" by (simp only: of_nat_eq_iff)
  then show ?thesis using pow_cycle_pq [OF p q pq, of u k] by simp
qed

lemma pow_N_inverse:
  assumes p: "is_prime p" and q: "is_prime q" and pq: "p \<noteq> q"
      and cop: "coprime (p * q) ((p - 1) * (q - 1))"
  obtains d where "ModInverse (p * q) ((p - 1) * (q - 1)) = Some d" "0 \<le> d"
    "\<And>u. u ^ (nat (p * q) * nat d) mod (p * q) = u mod (p * q)"
proof -
  have p1: "1 < p" and q1: "1 < q" using p q by (auto dest: is_prime_gt1)
  have phi: "0 < (p - 1) * (q - 1)" using p1 q1 by simp
  have N: "0 \<le> p * q" using p1 q1 by simp
  from ModInverse_Some [OF phi N cop] obtain d where
    d: "ModInverse (p * q) ((p - 1) * (q - 1)) = Some d" "0 \<le> d"
       "(p * q * d) mod ((p - 1) * (q - 1)) = 1 mod ((p - 1) * (q - 1))"
    by blast
  show ?thesis
    using d(1,2) inverse_exponent [OF p q pq d(2,3)] by (rule that)
qed

lemma pow_N_injective:
  assumes p: "is_prime p" and q: "is_prime q" and pq: "p \<noteq> q"
      and cop: "coprime (p * q) ((p - 1) * (q - 1))"
      and eq: "u ^ nat (p * q) mod (p * q) = v ^ nat (p * q) mod (p * q)"
  shows "u mod (p * q) = v mod (p * q)"
proof -
  obtain d where d: "\<And>u. u ^ (nat (p * q) * nat d) mod (p * q) = u mod (p * q)"
    using pow_N_inverse [OF p q pq cop] by blast
  have "(u ^ nat (p * q) mod (p * q)) ^ nat d mod (p * q)
      = (v ^ nat (p * q) mod (p * q)) ^ nat d mod (p * q)" by (simp only: eq)
  then have "(u ^ nat (p * q)) ^ nat d mod (p * q) = (v ^ nat (p * q)) ^ nat d mod (p * q)"
    by (simp only: power_mod)
  then show ?thesis by (simp only: power_mult [symmetric] d)
qed

section \<open>Generation and verification of the Blum-modulus proof\<close>

text \<open>The two checks of \<^verbatim>\<open>ModVerify\<close> at index \<open>i\<close>.\<close>

definition ModVerify_round_ok :: "ModProof \<Rightarrow> int \<Rightarrow> int list \<Rightarrow> nat \<Rightarrow> bool" where
  "ModVerify_round_ok pf N y i \<longleftrightarrow>
     (mp_Z pf ! i) ^ nat N mod N = y ! i
     \<and> (mp_X pf ! i) ^ 4 mod N = yy (mp_W pf) (y ! i) N (mp_A pf ! i) (mp_B pf ! i)"

lemma ModVerify_loop_skip:
  assumes N: "0 < N" and ok: "\<And>i. i \<in> set ixs \<Longrightarrow> ModVerify_round_ok pf N y i"
  shows "ModVerify_loop pf N y (ixs @ rest) = ModVerify_loop pf N y rest"
  using ok
proof (induction ixs)
  case Nil
  show ?case by simp
next
  case (Cons i ixs)
  from Cons.prems [of i] have i: "(mp_Z pf ! i) ^ nat N mod N = y ! i"
    "(mp_X pf ! i) ^ 4 mod N = yy (mp_W pf) (y ! i) N (mp_A pf ! i) (mp_B pf ! i)"
    by (simp_all add: ModVerify_round_ok_def)
  have z: "Exp (mp_Z pf ! i) N N = Some (y ! i)"
    using N i(1) by (simp add: Exp_nonneg)
  have x: "Exp (mp_X pf ! i) 4 N = Some (yy (mp_W pf) (y ! i) N (mp_A pf ! i) (mp_B pf ! i))"
    using N i(2) by (simp add: Exp_nonneg)
  have "ModVerify_loop pf N y (ixs @ rest) = ModVerify_loop pf N y rest"
    using Cons.prems by (intro Cons.IH) simp
  then show ?case by (simp add: z x)
qed

lemma ModVerify_loop_z_fails:
  assumes N: "0 < N" and z: "(mp_Z pf ! i) ^ nat N mod N \<noteq> y ! i"
  shows "ModVerify_loop pf N y (i # rest)
     = Returns (False, Some (ModZMismatch i ((mp_Z pf ! i) ^ nat N mod N) (y ! i)))"
  using N z by (simp add: Exp_nonneg)

lemma ModChallenge_length: "length (ModChallenge h N w) = 80"
  by (simp add: ModChallenge_def PARAM_M_def)

lemma ModChallenge_range:
  assumes "0 < N" "y_i \<in> set (ModChallenge h N w)"
  shows "0 \<le> y_i" "y_i < N"
  using assms by (auto simp: ModChallenge_def HashToN_def)

lemma composite_not_prime:
  assumes "1 < p" "1 < q"
  shows "\<not> is_prime (p * q)"
proof -
  have "p \<in> {2..<p * q}" using assms by simp
  moreover have "p dvd p * q" by simp
  ultimately show ?thesis unfolding is_prime_alt by blast
qed

lemma ModVerify_accepts:
  assumes p: "1 < p" "odd p" and q: "1 < q" "odd q"
      and ok: "\<And>i. i < 80 \<Longrightarrow> ModVerify_round_ok pf (p * q) (ModChallenge h (p * q) (mp_W pf)) i"
  shows "ModVerify h pf (p * q) = Returns (True, None)"
proof -
  have N: "0 < p * q" using p q by simp
  have "odd (p * q)" using p(2) q(2) by simp
  then have odd: "p * q mod 2 = 1" using odd_iff_mod_2_eq_one by blast
  have np: "\<not> ProbablyPrime (p * q)"
    using composite_not_prime [OF p(1) q(1)] by (simp add: ProbablyPrime_def)
  have "ModVerify_loop pf (p * q) (ModChallenge h (p * q) (mp_W pf)) ([0..<80] @ [])
      = ModVerify_loop pf (p * q) (ModChallenge h (p * q) (mp_W pf)) []"
    using N ok by (intro ModVerify_loop_skip) simp_all
  then show ?thesis by (simp add: ModVerify_def odd np PARAM_M_def)
qed

lemma ModProof_round_Some:
  assumes p: "is_prime p" and q: "is_prime q" and pq: "p \<noteq> q"
      and bp: "p mod 4 = 3" and bq: "q mod 4 = 3"
      and cop: "coprime (p * q) ((p - 1) * (q - 1))"
      and j: "Jacobi w (p * q) = - 1"
      and y: "0 \<le> y_i" "y_i < p * q"
  obtains x a b z where
    "ModProof_round w p q (p * q) ((p - 1) * (q - 1)) y_i = Some (x, a, b, z)"
    "x ^ 4 mod (p * q) = yy w y_i (p * q) a b"
    "z ^ nat (p * q) mod (p * q) = y_i"
proof -
  have N: "0 < p * q" using is_prime_gt1 [OF p] is_prime_gt1 [OF q] by simp
  from DefineXi_succeeds [OF p q pq bp bq refl j, of y_i]
  obtain a b x where x: "DefineXi w y_i p q (p * q) = Some (a, b, x)"
    "x ^ 4 mod (p * q) = yy w y_i (p * q) a b" by blast
  obtain d where d: "ModInverse (p * q) ((p - 1) * (q - 1)) = Some d" "0 \<le> d"
    "\<And>u. u ^ (nat (p * q) * nat d) mod (p * q) = u mod (p * q)"
    using pow_N_inverse [OF p q pq cop] by blast
  define z where "z = y_i ^ nat d mod (p * q)"
  have e: "Exp y_i d (p * q) = Some z" using d(2) N by (simp add: Exp_nonneg z_def)
  have "z ^ nat (p * q) mod (p * q) = (y_i ^ nat d) ^ nat (p * q) mod (p * q)"
    by (simp add: z_def power_mod)
  also have "\<dots> = y_i ^ (nat (p * q) * nat d) mod (p * q)"
    by (simp add: power_mult [symmetric] mult.commute)
  also have "\<dots> = y_i mod (p * q)" by (rule d(3))
  also have "\<dots> = y_i" using y by simp
  finally have "z ^ nat (p * q) mod (p * q) = y_i" .
  moreover have "ModProof_round w p q (p * q) ((p - 1) * (q - 1)) y_i = Some (x, a, b, z)"
    by (simp add: ModProof_round_def x(1) d(1) e)
  ultimately show ?thesis using x(2) that by blast
qed

lemma ModProof_honest:
  assumes p: "is_prime p" and q: "is_prime q" and pq: "p \<noteq> q"
      and bp: "p mod 4 = 3" and bq: "q mod 4 = 3"
      and cop: "coprime (p * q) ((p - 1) * (q - 1))"
      and key: "pk_N key = p * q" "pk_PhiN key = (p - 1) * (q - 1)" "pk_P key = p" "pk_Q key = q"
      and w: "sample_w rnd (p * q) 0 = Some w"
  obtains pf where "ModProof h rnd key = Returns pf" "mp_W pf = w"
    "length (mp_Z pf) = 80"
    "\<And>i. i < 80 \<Longrightarrow> ModVerify_round_ok pf (p * q) (ModChallenge h (p * q) w) i"
proof -
  let ?N = "p * q" and ?phi = "(p - 1) * (q - 1)"
  let ?y = "ModChallenge h ?N w"
  let ?round = "ModProof_round w p q ?N ?phi"
  have N: "0 < ?N" using is_prime_gt1 [OF p] is_prime_gt1 [OF q] by simp
  have oddN: "odd ?N" using bp bq by (simp add: even_mult_iff) presburger
  have j: "Jacobi w ?N = - 1" using w by (rule sample_w_sound)
  have round: "\<exists>x a b z. ?round y_i = Some (x, a, b, z)
      \<and> x ^ 4 mod ?N = yy w y_i ?N a b \<and> z ^ nat ?N mod ?N = y_i"
    if "y_i \<in> set ?y" for y_i
    using ModProof_round_Some [OF p q pq bp bq cop j ModChallenge_range [OF N that]]
    by metis
  define rs where "rs = map (\<lambda>y_i. the (?round y_i)) ?y"
  have "?round y_i \<noteq> None" if "y_i \<in> set ?y" for y_i
    using round [OF that] by auto
  then have those: "those (map ?round ?y) = Some rs"
    unfolding rs_def by (rule those_map_the)
  define pf where "pf = \<lparr>mp_W = w,
      mp_X = map (\<lambda>(x, a, b, z). x) rs, mp_A = map (\<lambda>(x, a, b, z). a) rs,
      mp_B = map (\<lambda>(x, a, b, z). b) rs, mp_Z = map (\<lambda>(x, a, b, z). z) rs\<rparr>"
  have gen: "ModProof h rnd key = Returns pf"
    using N oddN by (simp add: ModProof_def key w those pf_def Let_def)
  have len: "length rs = 80" by (simp add: rs_def ModChallenge_length)
  have ok: "ModVerify_round_ok pf ?N ?y i" if i: "i < 80" for i
  proof -
    have mem: "?y ! i \<in> set ?y" using i by (simp add: ModChallenge_length)
    from round [OF mem] obtain x a b z where r: "?round (?y ! i) = Some (x, a, b, z)"
      "x ^ 4 mod ?N = yy w (?y ! i) ?N a b" "z ^ nat ?N mod ?N = ?y ! i" by blast
    have "rs ! i = (x, a, b, z)" using i r(1) by (simp add: rs_def ModChallenge_length)
    then show ?thesis
      using i len r(2,3) by (simp add: ModVerify_round_ok_def pf_def)
  qed
  show ?thesis
    using gen _ _ ok by (rule that) (simp_all add: pf_def len)
qed

lemma ModProof_outcome:
  assumes p: "is_prime p" and q: "is_prime q" and pq: "p \<noteq> q"
      and bp: "p mod 4 = 3" and bq: "q mod 4 = 3"
      and cop: "coprime (p * q) ((p - 1) * (q - 1))"
      and key: "pk_N key = p * q" "pk_PhiN key = (p - 1) * (q - 1)" "pk_P key = p" "pk_Q key = q"
  shows "(\<forall>k. Jacobi (rnd k mod (p * q)) (p * q) \<noteq> - 1) \<and> ModProof h rnd key = Diverges
       \<or> (\<exists>pf. ModProof h rnd key = Returns pf \<and> length (mp_Z pf) = 80
              \<and> (\<forall>i<80. ModVerify_round_ok pf (p * q) (ModChallenge h (p * q) (mp_W pf)) i))"
proof (cases "sample_w rnd (p * q) 0")
  case None
  have N: "0 < p * q" using is_prime_gt1 [OF p] is_prime_gt1 [OF q] by simp
  have oddN: "odd (p * q)" using bp bq by (simp add: even_mult_iff) presburger
  have "ModProof h rnd key = Diverges"
    using N oddN by (simp add: ModProof_def key None)
  moreover have "Jacobi (rnd k mod (p * q)) (p * q) \<noteq> - 1" for k
    using sample_w_finds [OF N, of rnd 0 k] None by auto
  ultimately show ?thesis by blast
next
  case (Some w)
  from ModProof_honest [OF p q pq bp bq cop key Some, of h]
  obtain pf where pf: "ModProof h rnd key = Returns pf" "mp_W pf = w" "length (mp_Z pf) = 80"
    "\<And>i. i < 80 \<Longrightarrow> ModVerify_round_ok pf (p * q) (ModChallenge h (p * q) w) i"
    by blast
  then show ?thesis by auto
qed

text \<open>
  C1.  Let \<open>N = p \<cdot> q\<close> with distinct primes \<open>p\<close>, \<open>q\<close> congruent to 3 modulo 4,
  \<open>\<phi>(N) = (p - 1)(q - 1)\<close> and \<open>gcd(N, \<phi>(N)) = 1\<close>.  For every digest and every
  outcome of the sampling, \<^verbatim>\<open>ModProof()\<close> does not panic, and the proof it returns is
  accepted by \<^verbatim>\<open>ModVerify(N)\<close> with \<open>(true, nil)\<close>: \<open>z\<^sub>i\<^sup>N mod N = y\<^sub>i\<close> and
  \<open>x\<^sub>i\<^sup>4 mod N = (-1)\<^bsup>a\<^sub>i\<^esup> w\<^bsup>b\<^sub>i\<^esup> y\<^sub>i mod N\<close> for every \<open>i\<close> in \<open>0..79\<close>.  It returns
  as soon as some draw has Jacobi symbol -1.
\<close>

theorem ModProof_complete:
  assumes p: "is_prime p" and q: "is_prime q" and pq: "p \<noteq> q"
      and bp: "p mod 4 = 3" and bq: "q mod 4 = 3"
      and cop: "coprime (p * q) ((p - 1) * (q - 1))"
      and key: "pk_N key = p * q" "pk_PhiN key = (p - 1) * (q - 1)" "pk_P key = p" "pk_Q key = q"
  shows "ModProof h rnd key \<noteq> Panics
       \<and> (\<forall>pf. ModProof h rnd key = Returns pf \<longrightarrow>
             ModVerify h pf (p * q) = Returns (True, None)
             \<and> (\<forall>i<80. (mp_Z pf ! i) ^ nat (p * q) mod (p * q)
                           = ModChallenge h (p * q) (mp_W pf) ! i
                      \<and> (mp_X pf ! i) ^ 4 mod (p * q)
                           = yy (mp_W pf) (ModChallenge h (p * q) (mp_W pf) ! i) (p * q)
                               (mp_A pf ! i) (mp_B pf ! i)))
       \<and> ((\<exists>k. Jacobi (rnd k mod (p * q)) (p * q) = - 1) \<longrightarrow>
             (\<exists>pf. ModProof h rnd key = Returns pf))"
proof -
  have p1: "1 < p" "odd p" using is_prime_gt1 [OF p] bp by (simp, presburger)
  have q1: "1 < q" "odd q" using is_prime_gt1 [OF q] bq by (simp, presburger)
  from ModProof_outcome [OF p q pq bp bq cop key, of rnd h] show ?thesis
  proof (elim disjE conjE exE)
    assume "\<forall>k. Jacobi (rnd k mod (p * q)) (p * q) \<noteq> - 1" "ModProof h rnd key = Diverges"
    then show ?thesis by simp
  next
    fix pf
    assume pf: "ModProof h rnd key = Returns pf"
      and ok: "\<forall>i<80. ModVerify_round_ok pf (p * q) (ModChallenge h (p * q) (mp_W pf)) i"
    have "ModVerify h pf (p * q) = Returns (True, None)"
      using p1 q1 ok by (intro ModVerify_accepts) simp_all
    with pf ok show ?thesis by (simp add: ModVerify_round_ok_def)
  qed
qed

definition rnd_five :: "nat \<Rightarrow> int" where
  "rnd_five k = 5"

theorem ModProof_complete_witness:
  "\<exists>pf. ModProof h_mid rnd_five \<lparr>pk_N = 33, pk_PhiN = 20, pk_P = 3, pk_Q = 11\<rparr> = Returns pf
      \<and> ModVerify h_mid pf 33 = Returns (True, None)"
proof -
  have c: "coprime (3 * 11 :: int) ((3 - 1) * (11 - 1))" by code_simp
  have j: "Jacobi (rnd_five 0 mod (3 * 11)) (3 * 11) = - 1" by code_simp
  from ModProof_complete [OF is_prime_3 is_prime_11 _ _ _ c,
      of "\<lparr>pk_N = 33, pk_PhiN = 20, pk_P = 3, pk_Q = 11\<rparr>" h_mid rnd_five] j
  show ?thesis by auto
qed

text \<open>
  C8.  For an honestly generated proof over such a modulus, decrementing \<open>Z[79]\<close> by
  one makes \<^verbatim>\<open>ModVerify(N)\<close> return false with the error of the check
  \<open>z\<^sub>7\<^sub>9\<^sup>N = y\<^sub>7\<^sub>9\<close>: the indices below 79 still pass, and exponentiation by \<open>N\<close> is
  injective modulo \<open>N\<close>.
\<close>

theorem ModVerify_tamper_rejected:
  assumes p: "is_prime p" and q: "is_prime q" and pq: "p \<noteq> q"
      and bp: "p mod 4 = 3" and bq: "q mod 4 = 3"
      and cop: "coprime (p * q) ((p - 1) * (q - 1))"
      and key: "pk_N key = p * q" "pk_PhiN key = (p - 1) * (q - 1)" "pk_P key = p" "pk_Q key = q"
      and gen: "ModProof h rnd key = Returns pf"
  shows "\<exists>ziN. ModVerify h (pf\<lparr>mp_Z := (mp_Z pf)[79 := mp_Z pf ! 79 - 1]\<rparr>) (p * q)
               = Returns (False, Some (ModZMismatch 79 ziN
                   (ModChallenge h (p * q) (mp_W pf) ! 79)))
             \<and> ziN = (mp_Z pf ! 79 - 1) ^ nat (p * q) mod (p * q)
             \<and> ziN \<noteq> ModChallenge h (p * q) (mp_W pf) ! 79"
proof -
  let ?N = "p * q"
  let ?y = "ModChallenge h ?N (mp_W pf)"
  let ?pf = "pf\<lparr>mp_Z := (mp_Z pf)[79 := mp_Z pf ! 79 - 1]\<rparr>"
  have p1: "1 < p" "odd p" using is_prime_gt1 [OF p] bp by (simp, presburger)
  have q1: "1 < q" "odd q" using is_prime_gt1 [OF q] bq by (simp, presburger)
  have N: "0 < ?N" and N1: "1 < ?N" using p1(1) q1(1) by (simp_all add: less_1_mult)
  from ModProof_outcome [OF p q pq bp bq cop key, of rnd h] gen
  have len: "length (mp_Z pf) = 80"
    and ok: "\<And>i. i < 80 \<Longrightarrow> ModVerify_round_ok pf ?N ?y i" by auto
  have ok': "ModVerify_round_ok ?pf ?N ?y i" if "i \<in> set [0..<79]" for i
    using that ok [of i] by (simp add: ModVerify_round_ok_def)
  have z79: "mp_Z ?pf ! 79 = mp_Z pf ! 79 - 1" using len by simp
  have differs: "(mp_Z pf ! 79 - 1) ^ nat ?N mod ?N \<noteq> ?y ! 79"
  proof
    assume "(mp_Z pf ! 79 - 1) ^ nat ?N mod ?N = ?y ! 79"
    also have "?y ! 79 = (mp_Z pf ! 79) ^ nat ?N mod ?N"
      using ok [of 79] by (simp add: ModVerify_round_ok_def)
    finally have "(mp_Z pf ! 79 - 1) mod ?N = (mp_Z pf ! 79) mod ?N"
      by (rule pow_N_injective [OF p q pq cop])
    then have "?N dvd (mp_Z pf ! 79 - 1) - mp_Z pf ! 79" by (simp only: mod_eq_dvd_iff)
    then have "?N dvd 1" by simp
    with N1 show False by simp
  qed
  have "ModVerify_loop ?pf ?N ?y ([0..<79] @ [79]) = ModVerify_loop ?pf ?N ?y [79]"
    using N ok' by (rule ModVerify_loop_skip)
  also have "\<dots> = Returns (False, Some (ModZMismatch 79
      ((mp_Z ?pf ! 79) ^ nat ?N mod ?N) (?y ! 79)))"
  proof (rule ModVerify_loop_z_fails [OF N])
    show "(mp_Z ?pf ! 79) ^ nat ?N mod ?N \<noteq> ?y ! 79"
      unfolding z79 by (rule differs)
  qed
  also have "mp_Z ?pf ! 79 = mp_Z pf ! 79 - 1" by (rule z79)
  finally have loop: "ModVerify_loop ?pf ?N ?y [0..<80] = Returns (False, Some (ModZMismatch 79
      ((mp_Z pf ! 79 - 1) ^ nat ?N mod ?N) (?y ! 79)))"
    using upt_Suc_append [of 0 79] by simp
  have "odd ?N" using p1(2) q1(2) by simp
  then have odd: "?N mod 2 = 1" using odd_iff_mod_2_eq_one by blast
  have np: "\<not> ProbablyPrime ?N"
    using composite_not_prime [OF p1(1) q1(1)] by (simp add: ProbablyPrime_def)
  have "ModVerify h ?pf ?N = Returns (False, Some (ModZMismatch 79
      ((mp_Z pf ! 79 - 1) ^ nat ?N mod ?N) (?y ! 79)))"
    using loop by (simp add: ModVerify_def odd np PARAM_M_def)
  with differs show ?thesis by blast
qed

theorem ModVerify_tamper_rejected_witness:
  "\<exists>pf ziN y79.
      ModProof h_mid rnd_five \<lparr>pk_N = 33, pk_PhiN = 20, pk_P = 3, pk_Q = 11\<rparr> = Returns pf
    \<and> ModVerify h_mid (pf\<lparr>mp_Z := (mp_Z pf)[79 := mp_Z pf ! 79 - 1]\<rparr>) 33
        = Returns (False, Some (ModZMismatch 79 ziN y79))"
proof -
  let ?key = "\<lparr>pk_N = 33, pk_PhiN = 20, pk_P = 3, pk_Q = 11\<rparr>"
  have c: "coprime (3 * 11 :: int) ((3 - 1) * (11 - 1))" by code_simp
  have j: "Jacobi (rnd_five 0 mod (3 * 11)) (3 * 11) = - 1" by code_simp
  have k: "pk_N ?key = 3 * 11" "pk_PhiN ?key = (3 - 1) * (11 - 1)" "pk_P ?key = 3" "pk_Q ?key = 11"
    by simp_all
  have b: "(3::int) \<noteq> 11" "(3::int) mod 4 = 3" "(11::int) mod 4 = 3" by simp_all
  from ModProof_outcome [OF is_prime_3 is_prime_11 b c k, of rnd_five h_mid] j
  obtain pf where pf: "ModProof h_mid rnd_five ?key = Returns pf" by blast
  from ModVerify_tamper_rejected [OF is_prime_3 is_prime_11 b c k pf] pf
  show ?thesis by auto
qed

section \<open>The forged proof of the repository's test\<close>

text \<open>
  The computation of the repository's test \<^verbatim>\<open>TestModProofVerify_ForgedProof\<close>: the
  modulus \<open>17 \<cdot> 7\<close>, the witness \<open>w = 0\<close>, \<open>x\<^sub>i = 0\<close> and \<open>a\<^sub>i = b\<^sub>i = true\<close> for
  every index, \<open>z\<^sub>i = y\<^sub>i\<^bsup>z\<^sub>0\<^esup> mod N\<close> with \<open>z\<^sub>0\<close> the inverse of \<open>N\<close> modulo
  \<open>\<phi>(N)\<close>, and the result of \<^verbatim>\<open>ModVerify\<close> on that proof.
\<close>

definition TestModProofVerify_ForgedProof ::
  "(int \<Rightarrow> int list \<Rightarrow> int) \<Rightarrow> (bool \<times> error option) outcome" where
  "TestModProofVerify_ForgedProof h =
     (let p = 17; q = 7; N = p * q;
          phiN = (p - 1) * (q - 1);
          w = 0;
          y = ModChallenge h N w
      in case ModInverse N phiN of
           None \<Rightarrow> Panics
         | Some z_0 \<Rightarrow>
             (case those (map (\<lambda>y_i. Exp y_i z_0 N) y) of
                None \<Rightarrow> Panics
              | Some z \<Rightarrow>
                  ModVerify h \<lparr>mp_W = w, mp_X = replicate PARAM_M 0,
                    mp_A = replicate PARAM_M True, mp_B = replicate PARAM_M True,
                    mp_Z = z\<rparr> N))"

lemma is_prime_17: "is_prime 17"
  by code_simp

lemma ModInverse_119_96: "ModInverse (17 * 7) ((17 - 1) * (7 - 1)) = Some 71"
  by code_simp

text \<open>
  C2.  The claim is that \<^verbatim>\<open>ModVerify\<close> rejects the forged proof.  The code accepts it,
  whatever the digest: \<open>N = 119\<close> is odd and composite, \<open>z\<^sub>i\<^sup>N = y\<^sub>i\<close> holds since
  \<open>119 \<cdot> 71 = 1 + 88 \<cdot> 96\<close>, and \<open>0\<^sup>4 = - (y\<^sub>i \<cdot> 0) mod N\<close>.
\<close>

theorem ModVerify_accepts_forged:
  "TestModProofVerify_ForgedProof h = Returns (True, None)"
proof -
  let ?y = "ModChallenge h (17 * 7) 0"
  define z where "z = map (\<lambda>y_i. y_i ^ nat 71 mod (17 * 7)) ?y"
  define pf where "pf = \<lparr>mp_W = 0, mp_X = replicate PARAM_M 0,
      mp_A = replicate PARAM_M True, mp_B = replicate PARAM_M True, mp_Z = z\<rparr>"
  have those: "those (map (\<lambda>y_i. Exp y_i 71 (17 * 7)) ?y) = Some z"
    unfolding z_def by (intro those_map_Some) (simp add: Exp_nonneg)
  have run: "TestModProofVerify_ForgedProof h = ModVerify h pf (17 * 7)"
    using those ModInverse_119_96
    by (simp add: TestModProofVerify_ForgedProof_def pf_def Let_def)
  have pw: "u ^ (nat (17 * 7) * nat 71) mod (17 * 7) = u mod (17 * 7)" for u :: int
    by (rule inverse_exponent [OF is_prime_17 is_prime_7]) simp_all
  have ok: "ModVerify_round_ok pf (17 * 7) (ModChallenge h (17 * 7) (mp_W pf)) i"
    if i: "i < 80" for i
  proof -
    have w: "mp_W pf = 0" by (simp add: pf_def)
    have mem: "?y ! i \<in> set ?y" using i by (simp add: ModChallenge_length)
    have range: "0 \<le> ?y ! i" "?y ! i < 17 * 7"
      using ModChallenge_range [OF _ mem] by simp_all
    have zi: "mp_Z pf ! i = (?y ! i) ^ nat 71 mod (17 * 7)"
      using i by (simp add: pf_def z_def ModChallenge_length)
    have "(mp_Z pf ! i) ^ nat (17 * 7) mod (17 * 7)
        = ((?y ! i) ^ nat 71) ^ nat (17 * 7) mod (17 * 7)"
      unfolding zi by (rule power_mod)
    also have "\<dots> = (?y ! i) ^ (nat (17 * 7) * nat 71) mod (17 * 7)"
      by (simp only: power_mult [symmetric] mult.commute)
    also have "\<dots> = (?y ! i) mod (17 * 7)" by (rule pw)
    also have "\<dots> = ?y ! i" using range by simp
    finally have zc: "(mp_Z pf ! i) ^ nat (17 * 7) mod (17 * 7) = ?y ! i" .
    have xc: "(mp_X pf ! i) ^ 4 mod (17 * 7)
        = yy (mp_W pf) (?y ! i) (17 * 7) (mp_A pf ! i) (mp_B pf ! i)"
      using i by (simp add: pf_def PARAM_M_def yy_def)
    from zc xc show ?thesis by (simp only: ModVerify_round_ok_def w)
  qed
  have "ModVerify h pf (17 * 7) = Returns (True, None)"
    using ok by (intro ModVerify_accepts) simp_all
  with run show ?thesis by simp
qed

end
